theory Spec2Isabelle
  imports Main "HOL-Library.Word" "HOL-Library.Multiset"
begin

section \<open>Data model\<close>

type_synonym byte = "8 word"
type_synonym bytes = "byte list"

text \<open>
  The exceptions the program can raise, as values. \<open>ApiError\<close> stands for any exception
  raised by the Dropbox SDK (listing or transfer); the others are the Python built-ins
  raised by \<open>open\<close>, \<open>os.makedirs\<close>, \<open>os.path.exists\<close>, \<open>json.load\<close>, \<open>reduce\<close> and
  \<open>sys.exit\<close>.
\<close>

datatype error =
    FileNotFoundError
  | IsADirectoryError
  | NotADirectoryError
  | FileExistsError
  | TypeError
  | ValueError
  | KeyError
  | JSONDecodeError
  | SystemExit string
  | ApiError string

text \<open>
  A path is the pair of an "is absolute" flag and its components, which is what
  \<open>pathlib\<close> keeps of a path string. The file system maps a path to the node found there.
  Components are compared literally: no symbolic links and no \<open>..\<close> resolution.
\<close>

type_synonym path = "bool \<times> string list"

datatype node = File bytes | Dir

type_synonym filesystem = "path \<rightharpoonup> node"

text \<open>A manifest entry is the 4-tuple \<open>(path, entry.name, entry.content_hash, entry.size)\<close>.\<close>

type_synonym entry = "string \<times> string \<times> string \<times> int"

section \<open>Paths and the file system\<close>

text \<open>\<open>s.strip('/')\<close>: leading and trailing slashes removed.\<close>

definition strip_slash :: "string \<Rightarrow> string" where
  "strip_slash s = rev (dropWhile (\<lambda>c. c = CHR ''/'') (rev (dropWhile (\<lambda>c. c = CHR ''/'') s)))"

text \<open>Splitting at \<open>/\<close>, as \<open>str.split('/')\<close> does: \<open>n\<close> separators give \<open>n + 1\<close> pieces.\<close>

fun split_slash :: "string \<Rightarrow> string list" where
  "split_slash [] = [[]]"
| "split_slash (c # cs) =
     (if c = CHR ''/'' then [] # split_slash cs
      else (case split_slash cs of [] \<Rightarrow> [[c]] | w # ws \<Rightarrow> (c # w) # ws))"

text \<open>
  \<open>pathlib2.Path(s)\<close>: the path is absolute when the string starts with a slash; empty
  components and \<open>.\<close> components are dropped.
\<close>

definition Path :: "string \<Rightarrow> path" where
  "Path s = (s \<noteq> [] \<and> hd s = CHR ''/'',
             filter (\<lambda>w. w \<noteq> [] \<and> w \<noteq> ''.'') (split_slash s))"

text \<open>\<open>p / q\<close> of pathlib: an absolute right operand replaces the left one.\<close>

definition path_join :: "path \<Rightarrow> path \<Rightarrow> path" where
  "path_join p q = (if fst q then q else (fst p, snd p @ snd q))"

text \<open>\<open>p.parent\<close>: the path without its last component; a path without components is its own parent.\<close>

definition parent :: "path \<Rightarrow> path" where
  "parent p = (fst p, butlast (snd p))"

text \<open>\<open>os.path.exists\<close> on a path.\<close>

definition path_exists :: "filesystem \<Rightarrow> path \<Rightarrow> bool" where
  "path_exists fs p = (fs p \<noteq> None)"

text \<open>\<open>open(p, 'rb').read()\<close>: the bytes of a regular file, or the exception \<open>open\<close> raises.\<close>

definition read_file :: "filesystem \<Rightarrow> path \<Rightarrow> error + bytes" where
  "read_file fs p =
     (case fs p of
        None \<Rightarrow> Inl FileNotFoundError
      | Some Dir \<Rightarrow> Inl IsADirectoryError
      | Some (File data) \<Rightarrow> Inr data)"

text \<open>
  \<open>open(p, 'w')\<close> followed by writing \<open>data\<close>: fails on a directory and when the parent
  directory is missing or is a regular file; otherwise the file is created or replaced.
\<close>

definition write_file :: "filesystem \<Rightarrow> path \<Rightarrow> bytes \<Rightarrow> error + filesystem" where
  "write_file fs p data =
     (case fs p of
        Some Dir \<Rightarrow> Inl IsADirectoryError
      | Some (File old) \<Rightarrow> Inr (fs(p \<mapsto> File data))
      | None \<Rightarrow>
          (if snd p = [] then Inl FileNotFoundError
           else (case fs (parent p) of
                   Some Dir \<Rightarrow> Inr (fs(p \<mapsto> File data))
                 | Some (File old) \<Rightarrow> Inl NotADirectoryError
                 | None \<Rightarrow> Inl FileNotFoundError)))"

text \<open>\<open>os.mkdir\<close>: the directory must be new and its parent must be a directory.\<close>

definition mkdir :: "filesystem \<Rightarrow> path \<Rightarrow> error + filesystem" where
  "mkdir fs p =
     (if fs p \<noteq> None then Inl FileExistsError
      else if snd p = [] then Inl FileNotFoundError
      else (case fs (parent p) of
              Some Dir \<Rightarrow> Inr (fs(p \<mapsto> Dir))
            | Some (File old) \<Rightarrow> Inl NotADirectoryError
            | None \<Rightarrow> Inl FileNotFoundError))"

text \<open>
  \<open>os.makedirs(p)\<close> with \<open>exist_ok=False\<close>: when the head of the path is missing it
  is created first by the recursive call (whose \<open>FileExistsError\<close> is swallowed), then
  the leaf with \<open>os.mkdir\<close>. The components are passed innermost first. Directories
  created before a failure stay, so the file system is returned in both cases.
\<close>

fun makedirs_comps :: "filesystem \<Rightarrow> bool \<Rightarrow> string list \<Rightarrow> error option \<times> filesystem" where
  "makedirs_comps fs ab [] =
     (case mkdir fs (ab, []) of Inl e \<Rightarrow> (Some e, fs) | Inr fs' \<Rightarrow> (None, fs'))"
| "makedirs_comps fs ab (c # cs) =
     (let fs1 =
        (if cs \<noteq> [] \<and> \<not> path_exists fs (ab, rev cs) then
           (case makedirs_comps fs ab cs of
              (Some FileExistsError, fs') \<Rightarrow> (None, fs')
            | (Some e, fs') \<Rightarrow> (Some e, fs')
            | (None, fs') \<Rightarrow> (None, fs'))
         else (None, fs))
      in case fs1 of
           (Some e, fs') \<Rightarrow> (Some e, fs')
         | (None, fs') \<Rightarrow>
             (case mkdir fs' (ab, rev (c # cs)) of
                Inl e \<Rightarrow> (Some e, fs')
              | Inr fs'' \<Rightarrow> (None, fs'')))"

definition makedirs :: "filesystem \<Rightarrow> path \<Rightarrow> error option \<times> filesystem" where
  "makedirs fs p = makedirs_comps fs (fst p) (rev (snd p))"

section \<open>Content hash\<close>

text \<open>\<open>CHUNK_SIZE = 4 * 1024 * 1024\<close>\<close>

definition CHUNK_SIZE :: nat where
  "CHUNK_SIZE = 4 * 1024 * 1024"

text \<open>\<open>bytes.hex()\<close> as \<open>hexdigest\<close> uses it: two lowercase hexadecimal digits per byte.\<close>

definition hex_alphabet :: string where
  "hex_alphabet = ''0123456789abcdef''"

definition hex_digit :: "nat \<Rightarrow> char" where
  "hex_digit n = hex_alphabet ! (n mod 16)"

definition hex_byte :: "byte \<Rightarrow> string" where
  "hex_byte b = [hex_digit (unat b div 16), hex_digit (unat b mod 16)]"

definition hexdigest :: "bytes \<Rightarrow> string" where
  "hexdigest bs = concat (map hex_byte bs)"

text \<open>
  The loop \<open>while (chunk := fd.read(CHUNK_SIZE)): chunk_hashes += sha256(chunk).digest()\<close>.
  The open file \<open>fd\<close> is the list of bytes not yet read; \<open>fd.read(n)\<close> returns the next
  \<open>n\<close> of them (fewer at the end of the file) and advances. \<open>hashlib.sha256\<close> is a
  parameter, \<open>sha\<close>: the digest function from bytes to bytes.
\<close>

function hash_chunks :: "(bytes \<Rightarrow> bytes) \<Rightarrow> bytes \<Rightarrow> bytes \<Rightarrow> bytes" where
  "hash_chunks sha fd chunk_hashes =
     (let chunk = take CHUNK_SIZE fd in
      if chunk \<noteq> [] then hash_chunks sha (drop CHUNK_SIZE fd) (chunk_hashes @ sha chunk)
      else chunk_hashes)"
  by pat_completeness auto
termination
  by (relation "measure (\<lambda>(sha, fd, acc). length fd)") (auto simp: CHUNK_SIZE_def)

declare hash_chunks.simps [simp del]

definition db_content_hash :: "(bytes \<Rightarrow> bytes) \<Rightarrow> filesystem \<Rightarrow> path \<Rightarrow> error + string" where
  "db_content_hash sha fs file =
     (case read_file fs file of
        Inl e \<Rightarrow> Inl e
      | Inr fd \<Rightarrow> Inr (hexdigest (sha (hash_chunks sha fd []))))"

text \<open>
  The scheme in the words of the specification: the file cut into consecutive chunks of
  the fixed size (the last one may be shorter; no chunk is empty), each chunk digested,
  the digests concatenated in order, the concatenation digested, the result in hexadecimal.
\<close>

function chunks_of :: "nat \<Rightarrow> 'a list \<Rightarrow> 'a list list" where
  "chunks_of n xs = (if n = 0 \<or> xs = [] then [] else take n xs # chunks_of n (drop n xs))"
  by pat_completeness auto
termination
  by (relation "measure (\<lambda>(n, xs). length xs)") auto

declare chunks_of.simps [simp del]

definition content_hash_spec :: "(bytes \<Rightarrow> bytes) \<Rightarrow> bytes \<Rightarrow> string" where
  "content_hash_spec sha data = hexdigest (sha (concat (map sha (chunks_of CHUNK_SIZE data))))"

section \<open>Remote listing\<close>

text \<open>
  The entries of a listing page, told apart by \<open>isinstance\<close>: folders, files (with
  their \<open>content_hash\<close> and \<open>size\<close>), and any other metadata class of the SDK.
\<close>

datatype metadata =
    FolderMetadata string
  | FileMetadata string string int
  | DeletedMetadata string

text \<open>A \<open>ListFolderResult\<close>; the cursor is opaque to the program.\<close>

record 'c page =
  entries :: "metadata list"
  has_more :: bool
  cursor :: 'c

text \<open>
  The listing client \<open>dbx\<close>, a collaborator: two requests, each answering with a page or
  raising, and each free to change the state \<open>'s\<close> of the remote side.
\<close>

record ('s, 'c) listing_client =
  files_list_folder :: "string \<Rightarrow> string \<Rightarrow> 's \<Rightarrow> (error + 'c page) \<times> 's"
  files_list_folder_continue :: "'c \<Rightarrow> 's \<Rightarrow> (error + 'c page) \<times> 's"

text \<open>
  What the lister does that can be observed from outside: the line
  \<open>Investigating path ...\<close> it prints for each path it pops, and each request it sends,
  with the exception the request raised, if any.
\<close>

datatype 'c lister_event =
    Investigating string
  | ListFolder string "error option"
  | ListFolderContinue 'c "error option"

text \<open>
  \<open>while res.has_more: res = dbx.files_list_folder_continue(res.cursor);
  entries.extend(res.entries)\<close>. The remote side decides whether this loop ends.
\<close>

partial_function (option) fetch_more ::
  "('s, 'c) listing_client \<Rightarrow> 'c page \<Rightarrow> metadata list \<Rightarrow> 's \<Rightarrow> 'c lister_event list
     \<Rightarrow> ((error + metadata list) \<times> 's \<times> 'c lister_event list) option" where
  "fetch_more dbx res ents s tr =
     (if has_more res then
        (case files_list_folder_continue dbx (cursor res) s of
           (Inl e, s') \<Rightarrow> Some (Inl e, s', tr @ [ListFolderContinue (cursor res) (Some e)])
         | (Inr res', s') \<Rightarrow>
             fetch_more dbx res' (ents @ entries res') s'
               (tr @ [ListFolderContinue (cursor res) None]))
      else Some (Inr ents, s, tr))"

text \<open>\<open>'/'.join([path, name])\<close>\<close>

definition join_slash :: "string \<Rightarrow> string \<Rightarrow> string" where
  "join_slash path name = path @ [CHR ''/''] @ name"

text \<open>
  The \<open>for entry in entries\<close> loop: a folder's child path is appended to the worklist, a
  file's tuple to \<open>all_files\<close>, anything else is passed over.
\<close>

fun classify :: "string \<Rightarrow> metadata list \<Rightarrow> string list \<Rightarrow> entry list \<Rightarrow> string list \<times> entry list" where
  "classify path [] path_worklist all_files = (path_worklist, all_files)"
| "classify path (FolderMetadata name # es) path_worklist all_files =
     classify path es (path_worklist @ [join_slash path name]) all_files"
| "classify path (FileMetadata name content_hash sz # es) path_worklist all_files =
     classify path es path_worklist (all_files @ [(path, name, content_hash, sz)])"
| "classify path (DeletedMetadata name # es) path_worklist all_files =
     classify path es path_worklist all_files"

text \<open>
  \<open>while not len(path_worklist) < 1\<close>: \<open>pop()\<close> takes the last path. A failing request
  ends the traversal with its exception.
\<close>

partial_function (option) traverse ::
  "('s, 'c) listing_client \<Rightarrow> string \<Rightarrow> string list \<Rightarrow> entry list \<Rightarrow> 's \<Rightarrow> 'c lister_event list
     \<Rightarrow> ((error + entry list) \<times> 's \<times> 'c lister_event list) option" where
  "traverse dbx link path_worklist all_files s tr =
     (if \<not> length path_worklist < 1 then
        (case files_list_folder dbx (last path_worklist) link s of
           (Inl e, s') \<Rightarrow>
             Some (Inl e, s',
                   tr @ [Investigating (last path_worklist), ListFolder (last path_worklist) (Some e)])
         | (Inr res, s') \<Rightarrow>
             (case fetch_more dbx res (entries res) s'
                     (tr @ [Investigating (last path_worklist), ListFolder (last path_worklist) None]) of
                None \<Rightarrow> None
              | Some (Inl e, s'', tr') \<Rightarrow> Some (Inl e, s'', tr')
              | Some (Inr ents, s'', tr') \<Rightarrow>
                  (case classify (last path_worklist) ents (butlast path_worklist) all_files of
                     (path_worklist', all_files') \<Rightarrow>
                        traverse dbx link path_worklist' all_files' s'' tr')))
      else Some (Inr all_files, s, tr))"

text \<open>
  The \<open>json\<close> module, a collaborator: \<open>json.dump({'shared_link': ..., 'file_list': ...})\<close>
  as the text it writes, \<open>json.load(fd)['file_list']\<close> and \<open>json.load(fd)['api_token']\<close>
  as what they return for a file's content (or the exception they raise).
\<close>

record json_codec =
  json_dump_file_list :: "string \<Rightarrow> entry list \<Rightarrow> bytes"
  json_load_file_list :: "bytes \<Rightarrow> error + entry list"
  json_load_api_token :: "bytes \<Rightarrow> error + string"

text \<open>
  \<open>os.path.exists\<close> on what \<open>argparse\<close> delivers: a string, or \<open>None\<close> for an option
  that was not given. On \<open>None\<close> it raises \<open>TypeError\<close> (\<open>os.stat\<close> rejects it and only
  \<open>OSError\<close> and \<open>ValueError\<close> are caught); on the empty string it is false.
\<close>

definition os_path_exists :: "filesystem \<Rightarrow> string option \<Rightarrow> error + bool" where
  "os_path_exists fs loc =
     (case loc of
        None \<Rightarrow> Inl TypeError
      | Some s \<Rightarrow> Inr (s \<noteq> [] \<and> path_exists fs (Path s)))"

text \<open>\<open>open(s)\<close> and \<open>open(s, 'w')\<close> on a path string; the empty string names no file.\<close>

definition open_read :: "filesystem \<Rightarrow> string \<Rightarrow> error + bytes" where
  "open_read fs s = (if s = [] then Inl FileNotFoundError else read_file fs (Path s))"

definition open_write :: "filesystem \<Rightarrow> string \<Rightarrow> bytes \<Rightarrow> error + filesystem" where
  "open_write fs s data = (if s = [] then Inl FileNotFoundError else write_file fs (Path s) data)"

text \<open>
  \<open>get_file_list_recursive\<close>. The result is \<open>None\<close> when the traversal never ends;
  otherwise the returned list or the exception, with the file system, the remote state
  and the events after the call.
\<close>

definition get_file_list_recursive ::
  "('s, 'c) listing_client \<Rightarrow> json_codec \<Rightarrow> string \<Rightarrow> string option \<Rightarrow> filesystem \<Rightarrow> 's
     \<Rightarrow> ((error + entry list) \<times> filesystem \<times> 's \<times> 'c lister_event list) option" where
  "get_file_list_recursive dbx js link_root file_list_location fs s =
     (case os_path_exists fs file_list_location of
        Inl e \<Rightarrow> Some (Inl e, fs, s, [])
      | Inr True \<Rightarrow>
          (case open_read fs (the file_list_location) of
             Inl e \<Rightarrow> Some (Inl e, fs, s, [])
           | Inr content \<Rightarrow>
               (case json_load_file_list js content of
                  Inl e \<Rightarrow> Some (Inl e, fs, s, [])
                | Inr all_files \<Rightarrow> Some (Inr all_files, fs, s, [])))
      | Inr False \<Rightarrow>
          (case traverse dbx link_root [[]] [] s [] of
             None \<Rightarrow> None
           | Some (Inl e, s', tr) \<Rightarrow> Some (Inl e, fs, s', tr)
           | Some (Inr all_files, s', tr) \<Rightarrow>
               (case file_list_location of
                  None \<Rightarrow> Some (Inr all_files, fs, s', tr)
                | Some loc \<Rightarrow>
                    (case open_write fs loc (json_dump_file_list js link_root all_files) of
                       Inl e \<Rightarrow> Some (Inl e, fs, s', tr)
                     | Inr fs' \<Rightarrow> Some (Inr all_files, fs', s', tr)))))"

section \<open>Download scheduler\<close>

text \<open>
  A submitted call \<open>dbx.sharing_get_shared_link_file_to_file(download_path, url, path)\<close>.
\<close>

record task =
  download_path :: path
  url :: string
  remote_path :: string

text \<open>
  What the scheduler does, in the order it does it: its two printed lines, the start of
  the loop body for an entry, each \<open>pool.submit\<close>, each call a worker thread of
  the pool carries out (by the index of its future), and each \<open>future.result()\<close>.
\<close>

datatype sched_event =
    PrintChecking
  | Plan entry
  | Submit task
  | Run nat
  | PrintDownloading nat
  | Join nat

text \<open>
  The state the main thread and the workers share: the local file system, the futures in
  submission order, and for each future the outcome of its call once a worker has made it.
\<close>

record sched_state =
  disk :: filesystem
  futures :: "task list"
  outcomes :: "(error + unit) option list"
  events :: "sched_event list"

text \<open>
  The transfer: the remote side, \<open>fetch\<close>, gives the content of the file at \<open>path\<close> under
  the shared link \<open>url\<close> or raises; the content is then written to \<open>download_path\<close>.
\<close>

definition sharing_get_shared_link_file_to_file ::
  "(string \<Rightarrow> string \<Rightarrow> error + bytes) \<Rightarrow> task \<Rightarrow> filesystem \<Rightarrow> (error + unit) \<times> filesystem" where
  "sharing_get_shared_link_file_to_file fetch t fs =
     (case fetch (url t) (remote_path t) of
        Inl e \<Rightarrow> (Inl e, fs)
      | Inr data \<Rightarrow>
          (case write_file fs (download_path t) data of
             Inl e \<Rightarrow> (Inl e, fs)
           | Inr fs' \<Rightarrow> (Inr (), fs')))"

text \<open>
  A worker thread carries out the call of future \<open>j\<close>, if that future exists and has not
  been carried out yet. The workers run while the main thread goes on: which calls are
  made while the main thread is at step \<open>i\<close> is given by a schedule \<open>sch i\<close>, any list
  of future indices. The size of the pool only restricts the schedules that can occur.
\<close>

definition run_worker ::
  "(string \<Rightarrow> string \<Rightarrow> error + bytes) \<Rightarrow> nat \<Rightarrow> sched_state \<Rightarrow> sched_state" where
  "run_worker fetch j st =
     (if j < length (futures st) \<and> outcomes st ! j = None then
        (case sharing_get_shared_link_file_to_file fetch (futures st ! j) (disk st) of
           (r, fs') \<Rightarrow>
             st\<lparr>disk := fs', outcomes := (outcomes st)[j := Some r],
                events := events st @ [Run j]\<rparr>)
      else st)"

fun run_workers ::
  "(string \<Rightarrow> string \<Rightarrow> error + bytes) \<Rightarrow> nat list \<Rightarrow> sched_state \<Rightarrow> sched_state" where
  "run_workers fetch [] st = st"
| "run_workers fetch (j # js) st = run_workers fetch js (run_worker fetch j st)"

text \<open>\<open>futures.append(pool.submit(...))\<close>\<close>

definition submit :: "task \<Rightarrow> sched_state \<Rightarrow> sched_state" where
  "submit t st =
     st\<lparr>futures := futures st @ [t], outcomes := outcomes st @ [None],
        events := events st @ [Submit t]\<rparr>"

text \<open>\<open>pathlib2.Path(target_dir) / pathlib2.Path(path.strip('/')) / pathlib2.Path(name)\<close>\<close>

definition target_file_of :: "string \<Rightarrow> entry \<Rightarrow> path" where
  "target_file_of target_dir e =
     (case e of (path, name, content_hash, sz) \<Rightarrow>
        path_join (path_join (Path target_dir) (Path (strip_slash path))) (Path name))"

definition task_of :: "string \<Rightarrow> string \<Rightarrow> entry \<Rightarrow> task" where
  "task_of target_dir link_root e =
     (case e of (path, name, content_hash, sz) \<Rightarrow>
        \<lparr>download_path = target_file_of target_dir e, url = link_root,
         remote_path = join_slash path name\<rparr>)"

text \<open>\<open>if not os.path.exists(target_file.parent): os.makedirs(target_file.parent)\<close>\<close>

definition ensure_parent :: "filesystem \<Rightarrow> path \<Rightarrow> error option \<times> filesystem" where
  "ensure_parent fs target_file =
     (if \<not> path_exists fs (parent target_file) then makedirs fs (parent target_file)
      else (None, fs))"

text \<open>
  The body of the first loop for one entry: the parent directory is made if missing; an
  existing target whose content hash is the entry's is skipped (\<open>continue\<close>); otherwise
  the download is submitted. An exception ends the loop (first component \<open>Some\<close>).
\<close>

definition plan_entry ::
  "(bytes \<Rightarrow> bytes) \<Rightarrow> string \<Rightarrow> string \<Rightarrow> entry \<Rightarrow> sched_state \<Rightarrow> error option \<times> sched_state" where
  "plan_entry sha target_dir link_root e st =
     (case e of (path, name, content_hash, sz) \<Rightarrow>
        (let target_file = target_file_of target_dir e in
         case ensure_parent (disk st) target_file of
           (Some err, fs1) \<Rightarrow> (Some err, st\<lparr>disk := fs1, events := events st @ [Plan e]\<rparr>)
         | (None, fs1) \<Rightarrow>
             (let st1 = st\<lparr>disk := fs1, events := events st @ [Plan e]\<rparr> in
              if path_exists fs1 target_file then
                (case db_content_hash sha fs1 target_file of
                   Inl err \<Rightarrow> (Some err, st1)
                 | Inr h \<Rightarrow>
                     (if h = content_hash then (None, st1)
                      else (None, submit (task_of target_dir link_root e) st1)))
              else (None, submit (task_of target_dir link_root e) st1))))"

text \<open>The first loop, \<open>for path, name, content_hash, _ in files_to_download\<close>.\<close>

fun plan_loop ::
  "(bytes \<Rightarrow> bytes) \<Rightarrow> (string \<Rightarrow> string \<Rightarrow> error + bytes) \<Rightarrow> (nat \<Rightarrow> nat list) \<Rightarrow> string \<Rightarrow> string
     \<Rightarrow> nat \<Rightarrow> entry list \<Rightarrow> sched_state \<Rightarrow> error option \<times> sched_state" where
  "plan_loop sha fetch sch target_dir link_root i [] st = (None, st)"
| "plan_loop sha fetch sch target_dir link_root i (e # es) st =
     (case plan_entry sha target_dir link_root e (run_workers fetch (sch i) st) of
        (Some err, st') \<Rightarrow> (Some err, st')
      | (None, st') \<Rightarrow> plan_loop sha fetch sch target_dir link_root (Suc i) es st')"

text \<open>
  The second loop, \<open>for future in futures: future.result()\<close>: the main thread blocks
  until the call of future \<open>j\<close> has been made, and re-raises its exception if it raised.
\<close>

fun collect ::
  "(string \<Rightarrow> string \<Rightarrow> error + bytes) \<Rightarrow> (nat \<Rightarrow> nat list) \<Rightarrow> nat \<Rightarrow> nat list \<Rightarrow> sched_state
     \<Rightarrow> error option \<times> sched_state" where
  "collect fetch sch i [] st = (None, st)"
| "collect fetch sch i (j # js) st =
     (let st1 = run_worker fetch j (run_workers fetch (sch i) st);
          st2 = st1\<lparr>events := events st1 @ [Join j]\<rparr>
      in case outcomes st2 ! j of
           Some (Inl err) \<Rightarrow> (Some err, st2)
         | _ \<Rightarrow> collect fetch sch (Suc i) js st2)"

text \<open>
  Leaving the \<open>with\<close> block, normally or by an exception, calls the pool's
  \<open>shutdown(wait=True)\<close>: every submitted call that has not been made yet is made.
\<close>

definition shutdown ::
  "(string \<Rightarrow> string \<Rightarrow> error + bytes) \<Rightarrow> nat list \<Rightarrow> sched_state \<Rightarrow> sched_state" where
  "shutdown fetch order st = run_workers fetch (order @ [0..<length (futures st)]) st"

text \<open>
  \<open>download_file_list\<close>. \<open>ThreadPoolExecutor(n_parallel)\<close> raises \<open>ValueError\<close> unless
  \<open>n_parallel\<close> is positive. The schedule gives the workers' calls before each iteration
  of the first loop (\<open>sch i\<close>, for entry \<open>i\<close>), before each \<open>result()\<close> (\<open>sch (n + j)\<close> for
  \<open>n\<close> entries and future \<open>j\<close>), and \<open>order\<close> at the shutdown.
\<close>

definition download_file_list ::
  "(bytes \<Rightarrow> bytes) \<Rightarrow> (string \<Rightarrow> string \<Rightarrow> error + bytes) \<Rightarrow> (nat \<Rightarrow> nat list) \<Rightarrow> nat list
     \<Rightarrow> entry list \<Rightarrow> string \<Rightarrow> string \<Rightarrow> int \<Rightarrow> filesystem \<Rightarrow> (error + unit) \<times> sched_state" where
  "download_file_list sha fetch sch order files_to_download target_dir link_root n_parallel fs =
     (let st0 = \<lparr>disk = fs, futures = [], outcomes = [], events = []\<rparr> in
      if n_parallel \<le> 0 then (Inl ValueError, st0)
      else
        (case plan_loop sha fetch sch target_dir link_root 0 files_to_download
                (st0\<lparr>events := [PrintChecking]\<rparr>) of
           (Some err, st) \<Rightarrow> (Inl err, shutdown fetch order st)
         | (None, st) \<Rightarrow>
             (case collect fetch sch (length files_to_download) [0..<length (futures st)]
                     (st\<lparr>events := events st @ [PrintDownloading (length (futures st))]\<rparr>) of
                (Some err, st') \<Rightarrow> (Inl err, shutdown fetch order st')
              | (None, st') \<Rightarrow> (Inr (), shutdown fetch order st'))))"

section \<open>Orchestrator\<close>

text \<open>The parsed command line, \<open>args\<close>; an option that was not given is \<open>None\<close>.\<close>

record args =
  args_shared_link :: string
  args_target_dir :: string
  args_api_token_file :: string
  args_file_list_location :: "string option"
  args_n_parallel :: int
  args_max_num_files :: "int option"

text \<open>\<open>xs[:n]\<close>: a negative \<open>n\<close> counts from the end.\<close>

definition slice_to :: "'a list \<Rightarrow> int \<Rightarrow> 'a list" where
  "slice_to xs n = (if 0 \<le> n then take (nat n) xs else take (nat (int (length xs) + n)) xs)"

text \<open>\<open>reduce(add, xs)\<close> without an initial value: \<open>TypeError\<close> on the empty list.\<close>

fun reduce_add :: "int list \<Rightarrow> error + int" where
  "reduce_add [] = Inl TypeError"
| "reduce_add (x # xs) = Inr (foldl (+) x xs)"

text \<open>
  The main program: the token file must exist and hold a token; the file list is
  obtained and cut to \<open>max_num_files\<close>; the line \<open>Will download ...\<close> is
  formatted, which computes the total size; then the downloads are made. The result is
  \<open>None\<close> when the listing never ends; otherwise the outcome, the state of the scheduler
  (as at its creation when \<open>download_file_list\<close> was not reached, with the file system the
  lister left), the remote state and the lister's events.
\<close>

definition main ::
  "(bytes \<Rightarrow> bytes) \<Rightarrow> ('s, 'c) listing_client \<Rightarrow> (string \<Rightarrow> string \<Rightarrow> error + bytes) \<Rightarrow> json_codec
     \<Rightarrow> (nat \<Rightarrow> nat list) \<Rightarrow> nat list \<Rightarrow> args \<Rightarrow> filesystem \<Rightarrow> 's
     \<Rightarrow> ((error + unit) \<times> sched_state \<times> 's \<times> 'c lister_event list) option" where
  "main sha dbx fetch js sch order a fs s =
     (let idle = (\<lambda>fs'. \<lparr>disk = fs', futures = [], outcomes = [], events = []\<rparr>) in
      if \<not> (args_api_token_file a \<noteq> [] \<and> path_exists fs (Path (args_api_token_file a)))
      then Some (Inl (SystemExit ''API token file not found''), idle fs, s, [])
      else
        (case open_read fs (args_api_token_file a) of
           Inl e \<Rightarrow> Some (Inl e, idle fs, s, [])
         | Inr content \<Rightarrow>
             (case json_load_api_token js content of
                Inl e \<Rightarrow> Some (Inl e, idle fs, s, [])
              | Inr api_token \<Rightarrow>
                  (case get_file_list_recursive dbx js (args_shared_link a)
                          (args_file_list_location a) fs s of
                     None \<Rightarrow> None
                   | Some (Inl e, fs', s', tr) \<Rightarrow> Some (Inl e, idle fs', s', tr)
                   | Some (Inr all_files, fs', s', tr) \<Rightarrow>
                       (let files_to_download =
                          (case args_max_num_files a of
                             Some max_num_files \<Rightarrow> slice_to all_files max_num_files
                           | None \<Rightarrow> all_files)
                        in case reduce_add (map (\<lambda>(p, n, h, sz). sz) files_to_download) of
                             Inl e \<Rightarrow> Some (Inl e, idle fs', s', tr)
                           | Inr n_bytes \<Rightarrow>
                               (case download_file_list sha fetch sch order files_to_download
                                       (args_target_dir a) (args_shared_link a)
                                       (args_n_parallel a) fs' of
                                  (r, st) \<Rightarrow> Some (r, st, s', tr)))))))"

section \<open>A remote tree and the listing client that serves it\<close>

text \<open>
  The remote side of a traversal: a tree of files (name, content hash, size) and folders
  (name, children). The root folder is the list of its children.
\<close>

datatype rnode =
    RFile string string int
  | RFolder string "rnode list"

fun meta :: "rnode \<Rightarrow> metadata" where
  "meta (RFile name h sz) = FileMetadata name h sz"
| "meta (RFolder name children) = FolderMetadata name"

fun find_folder :: "string \<Rightarrow> rnode list \<Rightarrow> rnode list option" where
  "find_folder name [] = None"
| "find_folder name (RFile n h sz # rest) = find_folder name rest"
| "find_folder name (RFolder n children # rest) =
     (if n = name then Some children else find_folder name rest)"

fun lookup :: "rnode list \<Rightarrow> string list \<Rightarrow> rnode list option" where
  "lookup children [] = Some children"
| "lookup children (name # names) =
     (case find_folder name children of
        None \<Rightarrow> None
      | Some children' \<Rightarrow> lookup children' names)"

text \<open>
  The client serving the tree \<open>root\<close> in pages of \<open>k\<close> entries. The remote path
  \<open>/a/b\<close> names the folder \<open>b\<close> in the folder \<open>a\<close> of the root, the empty path the root;
  a path that names no folder is an error. The cursor is the list of entries still to
  be sent; the remote side has no state.
\<close>

definition page_of :: "nat \<Rightarrow> metadata list \<Rightarrow> metadata list page" where
  "page_of k ms = \<lparr>entries = take k ms, has_more = (k < length ms), cursor = drop k ms\<rparr>"

definition tree_client :: "rnode list \<Rightarrow> nat \<Rightarrow> (unit, metadata list) listing_client" where
  "tree_client root k =
     \<lparr>files_list_folder = (\<lambda>path link s.
        (case lookup root (tl (split_slash path)) of
           None \<Rightarrow> (Inl (ApiError ''path/not_found''), s)
         | Some children \<Rightarrow> (Inr (page_of k (map meta children)), s))),
      files_list_folder_continue = (\<lambda>c s. (Inr (page_of k c), s))\<rparr>"

text \<open>
  The files of the remote tree as manifest entries, and the paths of its folders, each
  with the path of the folder it lies in.
\<close>

fun files_in :: "string \<Rightarrow> rnode \<Rightarrow> entry list"
  and files_under :: "string \<Rightarrow> rnode list \<Rightarrow> entry list" where
  "files_in path (RFile name h sz) = [(path, name, h, sz)]"
| "files_in path (RFolder name children) = files_under (join_slash path name) children"
| "files_under path [] = []"
| "files_under path (n # ns) = files_in path n @ files_under path ns"

fun folders_in :: "string \<Rightarrow> rnode \<Rightarrow> string list"
  and folders_under :: "string \<Rightarrow> rnode list \<Rightarrow> string list" where
  "folders_in path (RFile name h sz) = []"
| "folders_in path (RFolder name children) =
     join_slash path name # folders_under (join_slash path name) children"
| "folders_under path [] = []"
| "folders_under path (n # ns) = folders_in path n @ folders_under path ns"

text \<open>
  What the provider guarantees of a tree: no name contains a slash, and the folders of
  one folder have different names.
\<close>

fun folder_names :: "rnode list \<Rightarrow> string list" where
  "folder_names [] = []"
| "folder_names (RFile n h sz # rest) = folder_names rest"
| "folder_names (RFolder n children # rest) = n # folder_names rest"

fun wf_node :: "rnode \<Rightarrow> bool"
  and wf_nodes :: "rnode list \<Rightarrow> bool" where
  "wf_node (RFile name h sz) = True"
| "wf_node (RFolder name children) =
     (CHR ''/'' \<notin> set name \<and> distinct (folder_names children) \<and> wf_nodes children)"
| "wf_nodes [] = True"
| "wf_nodes (n # ns) = (wf_node n \<and> wf_nodes ns)"

definition wf_tree :: "rnode list \<Rightarrow> bool" where
  "wf_tree root = (distinct (folder_names root) \<and> wf_nodes root)"

text \<open>The number of nodes of a tree.\<close>

fun node_count :: "rnode \<Rightarrow> nat"
  and nodes_count :: "rnode list \<Rightarrow> nat" where
  "node_count (RFile name h sz) = 1"
| "node_count (RFolder name children) = Suc (nodes_count children)"
| "nodes_count [] = 0"
| "nodes_count (n # ns) = node_count n + nodes_count ns"

section \<open>Auxiliary notions for the traversal\<close>

text \<open>The paths the lister reported as investigated, in order.\<close>

fun investigated :: "'c lister_event list \<Rightarrow> string list" where
  "investigated [] = []"
| "investigated (Investigating p # evs) = p # investigated evs"
| "investigated (ListFolder p r # evs) = investigated evs"
| "investigated (ListFolderContinue c r # evs) = investigated evs"

text \<open>
  The entries of the files lying directly in a folder, and its subfolders with their
  full paths.
\<close>

fun direct_files :: "string \<Rightarrow> rnode list \<Rightarrow> entry list" where
  "direct_files path [] = []"
| "direct_files path (RFile n h sz # rest) = (path, n, h, sz) # direct_files path rest"
| "direct_files path (RFolder n children # rest) = direct_files path rest"

fun subfolders :: "string \<Rightarrow> rnode list \<Rightarrow> (string \<times> rnode list) list" where
  "subfolders path [] = []"
| "subfolders path (RFile n h sz # rest) = subfolders path rest"
| "subfolders path (RFolder n children # rest) = (join_slash path n, children) # subfolders path rest"

text \<open>
  A worklist item is served when its path leads the client to a folder of the tree that
  keeps the provider's guarantees.
\<close>

definition served :: "rnode list \<Rightarrow> string \<times> rnode list \<Rightarrow> bool" where
  "served root it = (lookup root (tl (split_slash (fst it))) = Some (snd it)
                     \<and> distinct (folder_names (snd it)) \<and> wf_nodes (snd it))"

text \<open>A remote tree with nested folders, for the examples.\<close>

definition example_tree :: "rnode list" where
  "example_tree =
     [RFile ''a.txt'' ''h1'' 10,
      RFolder ''sub''
        [RFile ''b.txt'' ''h2'' 20,
         RFolder ''deep'' [RFile ''c.txt'' ''h3'' 30],
         RFile ''d.txt'' ''h4'' 40]]"

section \<open>Collaborators and inputs for the examples\<close>

text \<open>
  A codec that knows two file lists: the empty one, written as the byte 0, and the list
  of the single file \<open>a.txt\<close>, written as the byte 1. Every token file holds \<open>token\<close>.
\<close>

definition example_codec :: json_codec where
  "example_codec =
     \<lparr>json_dump_file_list =
        (\<lambda>link all_files. if all_files = [([], ''a.txt'', ''h1'', 10)] then [1] else [0]),
      json_load_file_list =
        (\<lambda>content. if content = [0] then Inr []
                    else if content = [1] then Inr [([], ''a.txt'', ''h1'', 10)]
                    else Inl JSONDecodeError),
      json_load_api_token = (\<lambda>content. Inr ''token'')\<rparr>"

text \<open>
  A working directory that holds the token file and nothing else, and one that also
  holds a saved empty file list.
\<close>

definition example_disk :: filesystem where
  "example_disk = [(False, []) \<mapsto> Dir, (False, [''secrets.json'']) \<mapsto> File []]"

definition example_disk_cached :: filesystem where
  "example_disk_cached = example_disk((False, [''list.json'']) \<mapsto> File [0])"

definition example_args :: args where
  "example_args =
     \<lparr>args_shared_link = ''link'', args_target_dir = ''out'',
      args_api_token_file = ''secrets.json'', args_file_list_location = Some ''list.json'',
      args_n_parallel = 1, args_max_num_files = None\<rparr>"

section \<open>Auxiliary notions for failing requests\<close>

text \<open>The exceptions of the requests that failed, in order, and what a result raised.\<close>

fun failures :: "'c lister_event list \<Rightarrow> error list" where
  "failures [] = []"
| "failures (Investigating p # evs) = failures evs"
| "failures (ListFolder p r # evs) = (case r of Some e \<Rightarrow> e # failures evs | None \<Rightarrow> failures evs)"
| "failures (ListFolderContinue c r # evs) =
     (case r of Some e \<Rightarrow> e # failures evs | None \<Rightarrow> failures evs)"

definition raised :: "error + 'a \<Rightarrow> error list" where
  "raised r = (case r of Inl e \<Rightarrow> [e] | Inr v \<Rightarrow> [])"

text \<open>
  A client whose first page announces more entries and whose continuation request
  fails.
\<close>

definition flaky_client :: "(unit, unit) listing_client" where
  "flaky_client =
     \<lparr>files_list_folder = (\<lambda>path link s.
        (Inr \<lparr>entries = [FileMetadata ''a.txt'' ''h1'' 10], has_more = True, cursor = ()\<rparr>, s)),
      files_list_folder_continue = (\<lambda>c s. (Inl (ApiError ''timeout''), s))\<rparr>"

text \<open>
  The points the traversal passes through while its requests succeed. At \<open>Outer\<close> the
  outer loop is about to test the worklist; at \<open>Inner\<close> a path has been popped, its
  first page received, and the inner loop is about to test \<open>res.has_more\<close>. One step
  leads from a point to the next one; no step is taken through a failing request.
\<close>

datatype ('s, 'c) point =
    Outer "string list" "entry list" 's "'c lister_event list"
  | Inner "string list" string "entry list" "'c page" "metadata list" 's "'c lister_event list"

inductive lstep ::
  "('s, 'c) listing_client \<Rightarrow> string \<Rightarrow> ('s, 'c) point \<Rightarrow> ('s, 'c) point \<Rightarrow> bool"
  for dbx :: "('s, 'c) listing_client" and link :: string where
  pop:
    "\<not> length path_worklist < 1 \<Longrightarrow>
     files_list_folder dbx (last path_worklist) link s = (Inr res, s') \<Longrightarrow>
     lstep dbx link (Outer path_worklist all_files s tr)
       (Inner (butlast path_worklist) (last path_worklist) all_files res (entries res) s'
          (tr @ [Investigating (last path_worklist), ListFolder (last path_worklist) None]))"
| continue:
    "has_more res \<Longrightarrow>
     files_list_folder_continue dbx (cursor res) s = (Inr res', s') \<Longrightarrow>
     lstep dbx link (Inner path_worklist path all_files res ents s tr)
       (Inner path_worklist path all_files res' (ents @ entries res') s'
          (tr @ [ListFolderContinue (cursor res) None]))"
| classified:
    "\<not> has_more res \<Longrightarrow>
     classify path ents path_worklist all_files = (path_worklist', all_files') \<Longrightarrow>
     lstep dbx link (Inner path_worklist path all_files res ents s tr)
       (Outer path_worklist' all_files' s tr)"

text \<open>
  The request the traversal sends next at a point, when that request fails: the
  exception, the remote state and the events after it.
\<close>

fun next_failure ::
  "('s, 'c) listing_client \<Rightarrow> string \<Rightarrow> ('s, 'c) point
     \<Rightarrow> (error \<times> 's \<times> 'c lister_event list) option" where
  "next_failure dbx link (Outer path_worklist all_files s tr) =
     (if \<not> length path_worklist < 1 then
        (case files_list_folder dbx (last path_worklist) link s of
           (Inl e, s') \<Rightarrow>
             Some (e, s', tr @ [Investigating (last path_worklist),
                                ListFolder (last path_worklist) (Some e)])
         | (Inr res, s') \<Rightarrow> None)
      else None)"
| "next_failure dbx link (Inner path_worklist path all_files res ents s tr) =
     (if has_more res then
        (case files_list_folder_continue dbx (cursor res) s of
           (Inl e, s') \<Rightarrow> Some (e, s', tr @ [ListFolderContinue (cursor res) (Some e)])
         | (Inr res', s') \<Rightarrow> None)
      else None)"

text \<open>What the traversal returns when it is resumed at a point.\<close>

fun resume ::
  "('s, 'c) listing_client \<Rightarrow> string \<Rightarrow> ('s, 'c) point
     \<Rightarrow> ((error + entry list) \<times> 's \<times> 'c lister_event list) option" where
  "resume dbx link (Outer path_worklist all_files s tr) =
     traverse dbx link path_worklist all_files s tr"
| "resume dbx link (Inner path_worklist path all_files res ents s tr) =
     (case fetch_more dbx res ents s tr of
        None \<Rightarrow> None
      | Some (Inl e, s'', tr') \<Rightarrow> Some (Inl e, s'', tr')
      | Some (Inr ents', s'', tr') \<Rightarrow>
          (case classify path ents' path_worklist all_files of
             (path_worklist', all_files') \<Rightarrow>
                traverse dbx link path_worklist' all_files' s'' tr'))"

text \<open>
  A client that lists the root, a folder and a file, and fails on every other path.
\<close>

definition broken_client :: "(unit, unit) listing_client" where
  "broken_client =
     \<lparr>files_list_folder = (\<lambda>path link s.
        if path = [] then
          (Inr \<lparr>entries = [FileMetadata ''a.txt'' ''h1'' 10, FolderMetadata ''sub''],
                has_more = False, cursor = ()\<rparr>, s)
        else (Inl (ApiError ''path/not_found''), s)),
      files_list_folder_continue = (\<lambda>c s. (Inl (ApiError ''timeout''), s))\<rparr>"

section \<open>Auxiliary notions and examples for the scheduler\<close>

text \<open>
  The target is up to date: it exists and \<open>db_content_hash\<close> returns the entry's hash.
\<close>

definition up_to_date :: "(bytes \<Rightarrow> bytes) \<Rightarrow> filesystem \<Rightarrow> path \<Rightarrow> string \<Rightarrow> bool" where
  "up_to_date sha fs target_file content_hash =
     (path_exists fs target_file \<and> db_content_hash sha fs target_file = Inr content_hash)"

text \<open>
  The scenario of the specification: two entries, the first already present in the
  target directory \<open>out\<close>. The digest function of the examples gives the length of its
  input as one byte, so that the content hash of a short non-empty file is \<open>01\<close>.
\<close>

definition example_sha :: "bytes \<Rightarrow> bytes" where
  "example_sha bs = [of_nat (length bs)]"

definition scenario_manifest :: "entry list" where
  "scenario_manifest = [([], ''a.txt'', ''01'', 10), (''/sub'', ''b.txt'', ''h2'', 20)]"

definition scenario_disk :: filesystem where
  "scenario_disk =
     [(False, []) \<mapsto> Dir, (False, [''out'']) \<mapsto> Dir,
      (False, [''out'', ''a.txt'']) \<mapsto> File [1, 2, 3]]"

definition scenario_task :: task where
  "scenario_task =
     \<lparr>download_path = (False, [''out'', ''sub'', ''b.txt'']), url = ''link'',
      remote_path = ''/sub/b.txt''\<rparr>"

text \<open>
  A remote side that delivers one byte for every file except \<open>/bad.txt\<close>, and a
  schedule in which a worker makes the first submitted call while the main thread is
  about to plan the second entry.
\<close>

definition example_fetch :: "string \<Rightarrow> string \<Rightarrow> error + bytes" where
  "example_fetch link p = (if p = ''/bad.txt'' then Inl (ApiError ''download failed'') else Inr [7])"

definition eager_schedule :: "nat \<Rightarrow> nat list" where
  "eager_schedule i = (if i = 1 then [0] else [])"

definition scenario_task_a :: task where
  "scenario_task_a =
     \<lparr>download_path = (False, [''out'', ''a.txt'']), url = ''link'', remote_path = ''/a.txt''\<rparr>"

text \<open>
  A list whose first file cannot be fetched, the two tasks it leads to, and a schedule
  in which the workers make no call before the main thread waits for it.
\<close>

definition failing_manifest :: "entry list" where
  "failing_manifest = [([], ''bad.txt'', ''hx'', 5), (''/sub'', ''b.txt'', ''h2'', 20)]"

definition failing_task :: task where
  "failing_task =
     \<lparr>download_path = (False, [''out'', ''bad.txt'']), url = ''link'', remote_path = ''/bad.txt''\<rparr>"

definition lazy_schedule :: "nat \<Rightarrow> nat list" where
  "lazy_schedule i = []"

text \<open>Every future has an outcome slot.\<close>

definition balanced :: "sched_state \<Rightarrow> bool" where
  "balanced st = (length (outcomes st) = length (futures st))"

text \<open>
  Notions for repeated runs. A transfer is faithful to an entry when the content it
  delivers for the entry's remote path, if it delivers any, has the entry's content
  hash. An entry is pending in a state when its task has been submitted and has not
  succeeded. The progress invariant of a run, for the entries planned so far: every
  future is the task of a planned entry, and every planned entry has its parent
  directory and is up to date or pending.
\<close>

definition entry_hash :: "entry \<Rightarrow> string" where
  "entry_hash e = (case e of (path, name, content_hash, sz) \<Rightarrow> content_hash)"

definition faithful ::
  "(bytes \<Rightarrow> bytes) \<Rightarrow> (string \<Rightarrow> string \<Rightarrow> error + bytes) \<Rightarrow> string \<Rightarrow> entry \<Rightarrow> bool" where
  "faithful sha fetch link_root e =
     (case e of (path, name, content_hash, sz) \<Rightarrow>
        (case fetch link_root (join_slash path name) of
           Inl err \<Rightarrow> True
         | Inr data \<Rightarrow> content_hash_spec sha data = content_hash))"

definition pending :: "string \<Rightarrow> string \<Rightarrow> sched_state \<Rightarrow> entry \<Rightarrow> bool" where
  "pending target_dir link_root st e =
     (\<exists>j < length (futures st).
        futures st ! j = task_of target_dir link_root e \<and> outcomes st ! j \<noteq> Some (Inr ()))"

definition progress ::
  "(bytes \<Rightarrow> bytes) \<Rightarrow> string \<Rightarrow> string \<Rightarrow> entry list \<Rightarrow> sched_state \<Rightarrow> bool" where
  "progress sha target_dir link_root planned_entries st =
     (balanced st
      \<and> (\<forall>t \<in> set (futures st). \<exists>e \<in> set planned_entries. t = task_of target_dir link_root e)
      \<and> (\<forall>e \<in> set planned_entries.
            path_exists (disk st) (parent (target_file_of target_dir e))
            \<and> (up_to_date sha (disk st) (target_file_of target_dir e) (entry_hash e)
                 \<or> pending target_dir link_root st e)))"

text \<open>
  A list for two runs in a row: on the disk of the scenario its first file is present
  and up to date, its second file has to be fetched.
\<close>

definition repeat_manifest :: "entry list" where
  "repeat_manifest = [([], ''a.txt'', ''01'', 10), (''/sub'', ''c.txt'', ''01'', 20)]"

definition repeat_task :: task where
  "repeat_task =
     \<lparr>download_path = (False, [''out'', ''sub'', ''c.txt'']), url = ''link'',
      remote_path = ''/sub/c.txt''\<rparr>"




text \<open>
  The events of the main thread, that is all events but the workers' calls; what the
  first loop records for an entry, with a flag telling whether it submitted a task.
\<close>

fun is_run :: "sched_event \<Rightarrow> bool" where
  "is_run (Run j) = True"
| "is_run ev = False"

definition main_thread :: "sched_event list \<Rightarrow> sched_event list" where
  "main_thread evs = filter (\<lambda>ev. \<not> is_run ev) evs"

definition planned :: "string \<Rightarrow> string \<Rightarrow> entry \<times> bool \<Rightarrow> sched_event list" where
  "planned target_dir link_root eb =
     Plan (fst eb) # (if snd eb then [Submit (task_of target_dir link_root (fst eb))] else [])"

text \<open>
  Planning comes first in a sequence of events when no entry is planned after a task
  has been submitted or carried out.
\<close>

fun is_plan :: "sched_event \<Rightarrow> bool" where
  "is_plan (Plan e) = True"
| "is_plan ev = False"

fun is_dispatch :: "sched_event \<Rightarrow> bool" where
  "is_dispatch (Submit t) = True"
| "is_dispatch (Run j) = True"
| "is_dispatch ev = False"

fun planning_first :: "sched_event list \<Rightarrow> bool" where
  "planning_first [] = True"
| "planning_first (ev # evs) =
     (if is_dispatch ev then list_all (\<lambda>x. \<not> is_plan x) evs else planning_first evs)"

text \<open>The first exception among the outcomes, in submission order.\<close>

fun first_failure :: "(error + unit) option list \<Rightarrow> error option" where
  "first_failure [] = None"
| "first_failure (Some (Inl e) # os) = Some e"
| "first_failure (Some (Inr u) # os) = first_failure os"
| "first_failure (None # os) = first_failure os"

text \<open>The futures whose \<open>result()\<close> was called, in order.\<close>

fun joined :: "sched_event list \<Rightarrow> nat list" where
  "joined [] = []"
| "joined (Join j # evs) = j # joined evs"
| "joined (ev # evs) = joined evs"

section \<open>Properties of the content hash\<close>

lemma hash_chunks_eq:
  "hash_chunks sha fd acc = acc @ concat (map sha (chunks_of CHUNK_SIZE fd))"
proof (induction sha fd acc rule: hash_chunks.induct)
  case (1 sha fd acc)
  show ?case
  proof (cases "take CHUNK_SIZE fd = []")
    case True
    then have "fd = []" by (simp add: CHUNK_SIZE_def)
    then show ?thesis
      by (simp add: hash_chunks.simps [of sha "[]"] chunks_of.simps [of _ "[]"])
  next
    case False
    then have ne: "fd \<noteq> []" by auto
    have "hash_chunks sha fd acc
          = hash_chunks sha (drop CHUNK_SIZE fd) (acc @ sha (take CHUNK_SIZE fd))"
      using False by (subst hash_chunks.simps) (simp add: Let_def)
    also have "\<dots> = (acc @ sha (take CHUNK_SIZE fd))
                     @ concat (map sha (chunks_of CHUNK_SIZE (drop CHUNK_SIZE fd)))"
      using "1.IH" [OF refl False] .
    also have "\<dots> = acc @ concat (map sha (chunks_of CHUNK_SIZE fd))"
      using ne by (subst (2) chunks_of.simps) (simp add: CHUNK_SIZE_def)
    finally show ?thesis .
  qed
qed

lemma hex_digit_lower: "hex_digit n \<in> set hex_alphabet"
proof -
  have "n mod 16 < length hex_alphabet" by (simp add: hex_alphabet_def)
  then show ?thesis unfolding hex_digit_def by (rule nth_mem)
qed

lemma hexdigest_lower: "set (hexdigest bs) \<subseteq> set hex_alphabet"
proof (induction bs)
  case Nil
  then show ?case by (simp add: hexdigest_def)
next
  case (Cons b bs)
  have "set (hex_byte b) \<subseteq> set hex_alphabet"
    unfolding hex_byte_def using hex_digit_lower by simp
  with Cons show ?case by (simp add: hexdigest_def)
qed

lemma hexdigest_length: "length (hexdigest bs) = 2 * length bs"
  by (induction bs) (simp_all add: hexdigest_def hex_byte_def)

text \<open>
  C1. For every readable file, \<open>db_content_hash\<close> returns the lowercase hexadecimal
  encoding of the digest of the concatenation, in read order, of the digests of the
  file's 4 MiB chunks; for the empty file the chunk sequence is empty and the result is
  the hexadecimal digest of the empty byte string, whatever the file.
\<close>

theorem db_content_hash_correct:
  assumes "fs file = Some (File data)"
  shows "db_content_hash sha fs file = Inr (content_hash_spec sha data)
         \<and> set (content_hash_spec sha data) \<subseteq> set hex_alphabet
         \<and> length (content_hash_spec sha data)
             = 2 * length (sha (concat (map sha (chunks_of CHUNK_SIZE data))))
         \<and> (data = [] \<longrightarrow> chunks_of CHUNK_SIZE data = []
                         \<and> db_content_hash sha fs file = Inr (hexdigest (sha [])))"
proof -
  have a: "db_content_hash sha fs file = Inr (content_hash_spec sha data)"
    using assms by (simp add: db_content_hash_def read_file_def content_hash_spec_def hash_chunks_eq)
  have b: "data = [] \<Longrightarrow> chunks_of CHUNK_SIZE data = []"
    by (simp add: chunks_of.simps [of _ "[]"])
  have c: "set (content_hash_spec sha data) \<subseteq> set hex_alphabet"
    unfolding content_hash_spec_def by (rule hexdigest_lower)
  have d: "length (content_hash_spec sha data)
             = 2 * length (sha (concat (map sha (chunks_of CHUNK_SIZE data))))"
    unfolding content_hash_spec_def by (rule hexdigest_length)
  have e: "data = [] \<Longrightarrow> db_content_hash sha fs file = Inr (hexdigest (sha []))"
    using a b by (simp add: content_hash_spec_def)
  show ?thesis using a b c d e by blast
qed

theorem db_content_hash_correct_witness:
  "[(False, [''f'']) \<mapsto> File [1, 2, 3]] (False, [''f'']) = Some (File [1, 2, 3])
   \<and> db_content_hash example_sha [(False, [''f'']) \<mapsto> File [1, 2, 3]] (False, [''f''])
       = Inr ''01''
   \<and> [(False, [''g'']) \<mapsto> File []] (False, [''g'']) = Some (File [])
   \<and> db_content_hash example_sha [(False, [''g'']) \<mapsto> File []] (False, [''g''])
       = Inr (hexdigest (example_sha []))
   \<and> hexdigest (example_sha []) = ''00''"
proof -
  have a: "[(False, [''f'']) \<mapsto> File [1, 2, 3]] (False, [''f'']) = Some (File [1, 2, 3])"
    by simp
  have b: "[(False, [''g'']) \<mapsto> File ([]::bytes)] (False, [''g'']) = Some (File [])"
    by simp
  have c: "content_hash_spec example_sha [1, 2, 3] = ''01''"
    by (simp add: content_hash_spec_def chunks_of.simps CHUNK_SIZE_def hexdigest_def hex_byte_def
          hex_digit_def hex_alphabet_def example_sha_def)
  have d: "hexdigest (example_sha []) = ''00''"
    by (simp add: hexdigest_def hex_byte_def hex_digit_def hex_alphabet_def example_sha_def)
  from db_content_hash_correct
         [of "[(False, [''f'']) \<mapsto> File [1, 2, 3]]" "(False, [''f''])" "[1, 2, 3]" example_sha]
       db_content_hash_correct
         [of "[(False, [''g'']) \<mapsto> File []]" "(False, [''g''])" "[]" example_sha]
       a b c d
  show ?thesis by auto
qed

section \<open>Properties of the traversal\<close>

lemma investigated_append: "investigated (xs @ ys) = investigated xs @ investigated ys"
  by (induction xs rule: investigated.induct) simp_all

lemma page_of_sel [simp]:
  "entries (page_of k ms) = take k ms"
  "has_more (page_of k ms) = (k < length ms)"
  "cursor (page_of k ms) = drop k ms"
  by (simp_all add: page_of_def)

lemma tree_client_continue [simp]:
  "files_list_folder_continue (tree_client root k) c s = (Inr (page_of k c), s)"
  by (simp add: tree_client_def)

lemma tree_client_first [simp]:
  "files_list_folder (tree_client root k) path link s =
     (case lookup root (tl (split_slash path)) of
        None \<Rightarrow> (Inl (ApiError ''path/not_found''), s)
      | Some children \<Rightarrow> (Inr (page_of k (map meta children)), s))"
  by (simp add: tree_client_def split: option.splits)

lemma fetch_more_tree:
  assumes k: "0 < k"
  shows "\<exists>tr'. fetch_more (tree_client root k) (page_of k ms) ents s tr
             = Some (Inr (ents @ drop k ms), s, tr') \<and> investigated tr' = investigated tr"
proof (induction "length ms" arbitrary: ms ents tr rule: less_induct)
  case less
  show ?case
  proof (cases "k < length ms")
    case False
    then show ?thesis
      by (subst fetch_more.simps) simp
  next
    case True
    with k have "length (drop k ms) < length ms" by simp
    from less [OF this, of "ents @ take k (drop k ms)" "tr @ [ListFolderContinue (drop k ms) None]"]
    obtain tr' where
      run: "fetch_more (tree_client root k) (page_of k (drop k ms)) (ents @ take k (drop k ms)) s
          (tr @ [ListFolderContinue (drop k ms) None])
        = Some (Inr ((ents @ take k (drop k ms)) @ drop k (drop k ms)), s, tr')"
      and inv: "investigated tr' = investigated (tr @ [ListFolderContinue (drop k ms) None])"
      by blast
    have eq: "(ents @ take k (drop k ms)) @ drop k (drop k ms) = ents @ drop k ms"
      by (simp only: append_assoc append_take_drop_id)
    have "fetch_more (tree_client root k) (page_of k ms) ents s tr
          = Some (Inr (ents @ drop k ms), s, tr')"
      using True run unfolding eq by (subst fetch_more.simps) simp
    moreover have "investigated tr' = investigated tr"
      using inv by (simp add: investigated_append)
    ultimately show ?thesis by blast
  qed
qed

lemma classify_tree:
  "classify path (map meta children) wl acc
   = (wl @ map fst (subfolders path children), acc @ direct_files path children)"
  by (induction children arbitrary: wl acc rule: direct_files.induct) simp_all


lemma split_slash_nonempty: "split_slash s \<noteq> []"
  by (induction s) (auto split: list.splits)

lemma split_slash_plain: "CHR ''/'' \<notin> set n \<Longrightarrow> split_slash n = [n]"
  by (induction n) auto

lemma split_slash_join:
  "CHR ''/'' \<notin> set n \<Longrightarrow> split_slash (join_slash p n) = split_slash p @ [n]"
proof (induction p)
  case Nil
  then show ?case by (simp add: join_slash_def split_slash_plain)
next
  case (Cons c p)
  then have IH: "split_slash (p @ CHR ''/'' # n) = split_slash p @ [n]"
    by (simp add: join_slash_def)
  obtain w ws where w: "split_slash p = w # ws"
    using split_slash_nonempty [of p] by (cases "split_slash p") auto
  show ?case by (simp add: join_slash_def IH w)
qed

lemma lookup_append:
  "lookup root (ns @ [n]) = (case lookup root ns of None \<Rightarrow> None | Some ch \<Rightarrow> find_folder n ch)"
  by (induction ns arbitrary: root) (auto split: option.splits)

lemma lookup_join:
  assumes "CHR ''/'' \<notin> set n" "lookup root (tl (split_slash p)) = Some ch"
  shows "lookup root (tl (split_slash (join_slash p n))) = find_folder n ch"
proof -
  have "tl (split_slash (join_slash p n)) = tl (split_slash p) @ [n]"
    using assms(1) split_slash_nonempty [of p] by (simp add: split_slash_join)
  then show ?thesis using assms(2) by (simp add: lookup_append)
qed

lemma folder_names_subfolders:
  "(q, c) \<in> set (subfolders p ch) \<Longrightarrow> \<exists>n. q = join_slash p n \<and> n \<in> set (folder_names ch)"
  by (induction p ch rule: subfolders.induct) auto

lemma subfolders_find:
  assumes "distinct (folder_names ch)" "wf_nodes ch" "(q, c) \<in> set (subfolders p ch)"
  shows "\<exists>n. q = join_slash p n \<and> find_folder n ch = Some c \<and> CHR ''/'' \<notin> set n
             \<and> distinct (folder_names c) \<and> wf_nodes c"
  using assms
proof (induction p ch rule: subfolders.induct)
  case (1 path)
  then show ?case by simp
next
  case (2 path n h sz rest)
  then show ?case by simp
next
  case (3 path n children rest)
  show ?case
  proof (cases "(q, c) = (join_slash path n, children)")
    case True
    then show ?thesis using "3.prems" by auto
  next
    case False
    then have mem: "(q, c) \<in> set (subfolders path rest)" using "3.prems"(3) by auto
    from "3.IH" [OF _ _ mem] "3.prems" obtain m where
      m: "q = join_slash path m" "find_folder m rest = Some c" "CHR ''/'' \<notin> set m"
         "distinct (folder_names c)" "wf_nodes c"
      by auto
    from folder_names_subfolders [OF mem] m(1) have "m \<in> set (folder_names rest)"
      by (auto simp: join_slash_def)
    with "3.prems"(1) have "n \<noteq> m" by auto
    with m show ?thesis by auto
  qed
qed

lemma subfolders_count:
  "sum_list (map (\<lambda>(q, c). Suc (nodes_count c)) (subfolders p ch)) \<le> nodes_count ch"
  by (induction p ch rule: subfolders.induct) auto

lemma files_under_split:
  "mset (files_under p ch)
   = mset (direct_files p ch) + mset (concat (map (\<lambda>(q, c). files_under q c) (subfolders p ch)))"
  by (induction p ch rule: subfolders.induct) auto

lemma folders_under_split:
  "mset (folders_under p ch)
   = mset (concat (map (\<lambda>(q, c). q # folders_under q c) (subfolders p ch)))"
  by (induction p ch rule: subfolders.induct) auto

lemma traverse_tree:
  assumes k: "0 < k" and ok: "\<forall>it \<in> set items. served root it"
  shows "\<exists>m tr'. traverse (tree_client root k) link (map fst items) acc s tr = Some (Inr m, s, tr')
           \<and> mset m = mset acc + mset (concat (map (\<lambda>(q, c). files_under q c) items))
           \<and> mset (investigated tr')
               = mset (investigated tr) + mset (concat (map (\<lambda>(q, c). q # folders_under q c) items))"
  using ok
proof (induction "sum_list (map (\<lambda>(q, c). Suc (nodes_count c)) items)"
         arbitrary: items acc tr rule: less_induct)
  case less
  show ?case
  proof (cases items rule: rev_cases)
    case Nil
    then show ?thesis by (subst traverse.simps) simp
  next
    case (snoc its it)
    obtain p ch where it: "it = (p, ch)" by (cases it)
    have sv: "served root (p, ch)" using less.prems snoc it by simp
    then have look: "lookup root (tl (split_slash p)) = Some ch"
      and dist: "distinct (folder_names ch)" and wf: "wf_nodes ch"
      by (simp_all add: served_def)
    let ?tr1 = "tr @ [Investigating p, ListFolder p None]"
    let ?items' = "its @ subfolders p ch"
    obtain tr2 where
      fm: "fetch_more (tree_client root k) (page_of k (map meta ch)) (take k (map meta ch)) s ?tr1
           = Some (Inr (take k (map meta ch) @ drop k (map meta ch)), s, tr2)"
      and inv2: "investigated tr2 = investigated ?tr1"
      using fetch_more_tree [OF k] by blast
    have ok': "\<forall>it \<in> set ?items'. served root it"
    proof
      fix x assume x: "x \<in> set ?items'"
      show "served root x"
      proof (cases "x \<in> set its")
        case True
        then show ?thesis using less.prems snoc by simp
      next
        case False
        obtain q c where xq: "x = (q, c)" by (cases x)
        with x False have "(q, c) \<in> set (subfolders p ch)" by simp
        from subfolders_find [OF dist wf this] obtain n where
          n: "q = join_slash p n" "find_folder n ch = Some c" "CHR ''/'' \<notin> set n"
             "distinct (folder_names c)" "wf_nodes c" by blast
        have "lookup root (tl (split_slash q)) = Some c"
          using lookup_join [OF n(3) look] n(1,2) by simp
        then show ?thesis using n xq by (simp add: served_def)
      qed
    qed
    have less': "sum_list (map (\<lambda>(q, c). Suc (nodes_count c)) ?items')
                 < sum_list (map (\<lambda>(q, c). Suc (nodes_count c)) items)"
      using subfolders_count [of p ch] snoc it by simp
    from less.hyps [OF less' ok', of "acc @ direct_files p ch" tr2]
    obtain m tr' where
      run: "traverse (tree_client root k) link (map fst ?items') (acc @ direct_files p ch) s tr2
            = Some (Inr m, s, tr')"
      and ms: "mset m = mset (acc @ direct_files p ch)
                 + mset (concat (map (\<lambda>(q, c). files_under q c) ?items'))"
      and inv: "mset (investigated tr')
                 = mset (investigated tr2)
                   + mset (concat (map (\<lambda>(q, c). q # folders_under q c) ?items'))"
      by blast
    have step: "traverse (tree_client root k) link (map fst items) acc s tr = Some (Inr m, s, tr')"
      using run fm look snoc it
      by (subst traverse.simps) (simp add: classify_tree)
    have ms': "mset m = mset acc + mset (concat (map (\<lambda>(q, c). files_under q c) items))"
      using ms snoc it by (simp add: files_under_split [of p ch])
    have inv': "mset (investigated tr')
                = mset (investigated tr) + mset (concat (map (\<lambda>(q, c). q # folders_under q c) items))"
      using inv inv2 snoc it
      by (simp add: folders_under_split [of p ch] investigated_append)
    from step ms' inv' show ?thesis by blast
  qed
qed

text \<open>
  C3. For every remote tree that keeps the provider's guarantees, served in pages of any
  positive size, the traversal from the root worklist ends (the worklist is then empty)
  without an error, its manifest holds exactly one entry per remote file (with the path
  of the file's folder) and none for a folder, and every folder, the root included, was
  investigated exactly once.
\<close>

theorem traversal_complete:
  assumes "wf_tree root" "0 < k"
  shows "\<exists>m tr. traverse (tree_client root k) link [[]] [] () [] = Some (Inr m, (), tr)
           \<and> mset m = mset (files_under [] root)
           \<and> mset (investigated tr) = mset ([] # folders_under [] root)"
proof -
  have "\<forall>it \<in> set [([], root)]. served root it"
    using assms(1) by (simp add: served_def wf_tree_def)
  from traverse_tree [OF assms(2) this, of link "[]" "()" "[]"]
  show ?thesis by simp
qed

theorem traversal_complete_witness:
  "wf_tree example_tree \<and> (0::nat) < 1
   \<and> (\<exists>m tr. traverse (tree_client example_tree 1) ''link'' [[]] [] () [] = Some (Inr m, (), tr)
         \<and> mset m = {#([], ''a.txt'', ''h1'', 10), (''/sub'', ''b.txt'', ''h2'', 20),
                       (''/sub/deep'', ''c.txt'', ''h3'', 30), (''/sub'', ''d.txt'', ''h4'', 40)#}
         \<and> mset (investigated tr) = {#[], ''/sub'', ''/sub/deep''#})"
proof -
  have wf: "wf_tree example_tree" by (simp add: wf_tree_def example_tree_def)
  show ?thesis
    using wf traversal_complete [OF wf, of 1 "''link''"]
    by (simp add: example_tree_def join_slash_def)
qed

section \<open>Properties of the lister and of the main program\<close>

lemma Path_secrets: "Path ''secrets.json'' = (False, [''secrets.json''])"
  by (simp add: Path_def)
lemma Path_list: "Path ''list.json'' = (False, [''list.json''])"
  by (simp add: Path_def)

lemma failures_append: "failures (xs @ ys) = failures xs @ failures ys"
  by (induction xs rule: failures.induct) (simp_all split: option.splits)

lemma fetch_more_failures_aux:
  assumes "fetch_more dbx res ents s tr = Some y"
  shows "failures (snd (snd y)) = failures tr @ raised (fst y)"
  using assms
proof (induction rule: fetch_more.raw_induct [rotated 1, consumes 1, case_names 1])
  case (1 fetch_more dbx res ents s tr y)
  obtain r s' tr' where y: "y = (r, s', tr')" by (cases y)
  note prems = "1.hyps" [unfolded y]
  have "failures tr' = failures tr @ raised r"
  proof (cases "has_more res")
    case False
    with prems show ?thesis by (auto simp: raised_def)
  next
    case True
    obtain a s1 where c: "files_list_folder_continue dbx (cursor res) s = (a, s1)"
      by (cases "files_list_folder_continue dbx (cursor res) s")
    show ?thesis
    proof (cases a)
      case (Inl e)
      with prems True c show ?thesis by (auto simp: raised_def failures_append)
    next
      case (Inr res')
      with prems True c
      have "fetch_more dbx res' (ents @ entries res') s1
              (tr @ [ListFolderContinue (cursor res) None]) = Some (r, s', tr')"
        by simp
      from "1.IH" [OF this] show ?thesis by (simp add: failures_append)
    qed
  qed
  then show ?case by (simp add: y)
qed

lemma fetch_more_failures:
  "fetch_more dbx res ents s tr = Some (r, s', tr') \<Longrightarrow> failures tr' = failures tr @ raised r"
  using fetch_more_failures_aux [of dbx res ents s tr "(r, s', tr')"] by simp

lemma traverse_failures_aux:
  assumes "traverse dbx link wl acc s tr = Some y"
  shows "failures (snd (snd y)) = failures tr @ raised (fst y)"
  using assms
proof (induction rule: traverse.raw_induct [rotated 1, consumes 1, case_names 1])
  case (1 traverse dbx link wl acc s tr y)
  obtain r s' tr' where y: "y = (r, s', tr')" by (cases y)
  note prems = "1.hyps" [unfolded y]
  have "failures tr' = failures tr @ raised r"
  proof (cases "length wl < 1")
    case True
    with prems show ?thesis by (auto simp: raised_def)
  next
    case False
    obtain a s1 where c: "files_list_folder dbx (last wl) link s = (a, s1)"
      by (cases "files_list_folder dbx (last wl) link s")
    show ?thesis
    proof (cases a)
      case (Inl e)
      with prems False c show ?thesis by (auto simp: raised_def failures_append)
    next
      case (Inr res)
      let ?tr1 = "tr @ [Investigating (last wl), ListFolder (last wl) None]"
      from prems False c Inr obtain r2 s2 tr2 where
        fm: "fetch_more dbx res (entries res) s1 ?tr1 = Some (r2, s2, tr2)"
        by (auto split: option.splits)
      from fetch_more_failures [OF fm] have f2: "failures tr2 = failures tr @ raised r2"
        by (simp add: failures_append)
      show ?thesis
      proof (cases r2)
        case (Inl e)
        with prems False c Inr fm f2 show ?thesis by (auto simp: raised_def)
      next
        case r2: (Inr ents)
        obtain wl' acc' where cl: "classify (last wl) ents (butlast wl) acc = (wl', acc')"
          by (cases "classify (last wl) ents (butlast wl) acc")
        with prems False c Inr fm r2
        have "traverse dbx link wl' acc' s2 tr2 = Some (r, s', tr')" by simp
        from "1.IH" [OF this] f2 r2 show ?thesis by (simp add: raised_def)
      qed
    qed
  qed
  then show ?case by (simp add: y)
qed

lemma traverse_failures:
  "traverse dbx link wl acc s tr = Some (r, s', tr') \<Longrightarrow> failures tr' = failures tr @ raised r"
  using traverse_failures_aux [of dbx link wl acc s tr "(r, s', tr')"] by simp

text \<open>
  A call that did return, with a failed request among its events, raised that request's
  exception and left the file system alone.
\<close>

lemma failed_request_in_trace:
  assumes "get_file_list_recursive dbx js link_root file_list_location fs s = Some (r, fs', s', tr)"
    and "e \<in> set (failures tr)"
  shows "r = Inl e \<and> fs' = fs"
proof -
  from assms(2) have ne: "tr \<noteq> []" by auto
  from assms(1) ne obtain r0 where
    tv: "traverse dbx link_root [[]] [] s [] = Some (r0, s', tr)"
    and res: "r0 = Inr m \<Longrightarrow> True" for m
    by (auto simp: get_file_list_recursive_def split: sum.splits bool.splits option.splits)
  from traverse_failures [OF tv] assms(2) have r0: "r0 = Inl e"
    by (cases r0) (auto simp: raised_def)
  with assms(1) ne tv show ?thesis
    by (auto simp: get_file_list_recursive_def split: sum.splits bool.splits option.splits)
qed

lemma lstep_resume:
  assumes "lstep dbx link c c'"
  shows "resume dbx link c = resume dbx link c'"
  using assms
proof cases
  case (pop path_worklist s res s' all_files tr)
  then show ?thesis by (simp add: traverse.simps [of dbx link path_worklist])
next
  case (continue res s res' s' path_worklist path all_files ents tr)
  then show ?thesis by (simp add: fetch_more.simps [of dbx res])
next
  case (classified res path ents path_worklist all_files path_worklist' all_files' s tr)
  then show ?thesis by (simp add: fetch_more.simps [of dbx res])
qed

lemma next_failure_resume:
  assumes "next_failure dbx link c = Some (e, s', tr')"
  shows "resume dbx link c = Some (Inl e, s', tr')"
proof (cases c)
  case (Outer path_worklist all_files s tr)
  with assms show ?thesis
    by (auto simp: traverse.simps [of dbx link path_worklist] split: if_splits prod.splits sum.splits)
next
  case (Inner path_worklist path all_files res ents s tr)
  with assms show ?thesis
    by (auto simp: fetch_more.simps [of dbx res] split: if_splits prod.splits sum.splits)
qed

lemma reach_resume:
  assumes "(lstep dbx link)\<^sup>*\<^sup>* c c'"
  shows "resume dbx link c = resume dbx link c'"
  using assms by (induction rule: rtranclp_induct) (auto dest: lstep_resume)

text \<open>
  C7. If a listing request fails during the traversal, the first page of a path or a
  continuation page, at whatever point the traversal has reached by then, the lister
  ends, raising that request's exception: it returns no list, and the file system is as
  before the call, so nothing is persisted, the entries gathered so far included.
\<close>

theorem listing_failure_aborts:
  assumes "os_path_exists fs file_list_location = Inr False"
    and "(lstep dbx link_root)\<^sup>*\<^sup>* (Outer [[]] [] s []) c"
    and "next_failure dbx link_root c = Some (e, s', tr)"
  shows "get_file_list_recursive dbx js link_root file_list_location fs s = Some (Inl e, fs, s', tr)"
proof -
  have "traverse dbx link_root [[]] [] s [] = Some (Inl e, s', tr)"
    using reach_resume [OF assms(2)] next_failure_resume [OF assms(3)] by simp
  with assms(1) show ?thesis by (simp add: get_file_list_recursive_def)
qed


theorem listing_failure_aborts_witness:
  "get_file_list_recursive flaky_client example_codec ''link'' (Some ''list.json'') example_disk ()
   = Some (Inl (ApiError ''timeout''), example_disk, (),
           [Investigating [], ListFolder [] None, ListFolderContinue () (Some (ApiError ''timeout''))])
   \<and> get_file_list_recursive broken_client example_codec ''link'' (Some ''list.json'') example_disk ()
   = Some (Inl (ApiError ''path/not_found''), example_disk, (),
           [Investigating [], ListFolder [] None, Investigating ''/sub'',
            ListFolder ''/sub'' (Some (ApiError ''path/not_found''))])
   \<and> example_disk (Path ''list.json'') = None"
proof -
  have absent: "os_path_exists example_disk (Some ''list.json'') = Inr False"
    by (simp add: os_path_exists_def path_exists_def Path_list example_disk_def)
  let ?page = "\<lparr>entries = [FileMetadata ''a.txt'' ''h1'' 10], has_more = True, cursor = ()\<rparr>"
  let ?tr1 = "[Investigating [], ListFolder [] None] :: unit lister_event list"
  have "lstep flaky_client ''link'' (Outer [[]] [] () [])
          (Inner (butlast [[]]) (last [[]]) [] ?page (entries ?page) ()
             ([] @ [Investigating (last [[]]), ListFolder (last [[]]) None]))"
    by (rule lstep.pop) (simp_all add: flaky_client_def)
  then have r1: "(lstep flaky_client ''link'')\<^sup>*\<^sup>* (Outer [[]] [] () [])
          (Inner [] [] [] ?page [FileMetadata ''a.txt'' ''h1'' 10] () ?tr1)"
    by simp
  have f1: "next_failure flaky_client ''link''
              (Inner [] [] [] ?page [FileMetadata ''a.txt'' ''h1'' 10] () ?tr1)
            = Some (ApiError ''timeout'', (),
                    [Investigating [], ListFolder [] None,
                     ListFolderContinue () (Some (ApiError ''timeout''))])"
    by (simp add: flaky_client_def)
  let ?root = "\<lparr>entries = [FileMetadata ''a.txt'' ''h1'' 10, FolderMetadata ''sub''],
                 has_more = False, cursor = ()\<rparr>"
  have s1: "lstep broken_client ''link'' (Outer [[]] [] () [])
          (Inner (butlast [[]]) (last [[]]) [] ?root (entries ?root) ()
             ([] @ [Investigating (last [[]]), ListFolder (last [[]]) None]))"
    by (rule lstep.pop) (simp_all add: broken_client_def)
  have s2: "lstep broken_client ''link''
          (Inner [] [] [] ?root [FileMetadata ''a.txt'' ''h1'' 10, FolderMetadata ''sub''] () ?tr1)
          (Outer [''/sub''] [([], ''a.txt'', ''h1'', 10)] () ?tr1)"
    by (rule lstep.classified) (simp_all add: join_slash_def)
  from s1 s2 have r2: "(lstep broken_client ''link'')\<^sup>*\<^sup>* (Outer [[]] [] () [])
          (Outer [''/sub''] [([], ''a.txt'', ''h1'', 10)] () ?tr1)"
    by simp
  have f2: "next_failure broken_client ''link''
              (Outer [''/sub''] [([], ''a.txt'', ''h1'', 10)] () ?tr1)
            = Some (ApiError ''path/not_found'', (),
                    [Investigating [], ListFolder [] None, Investigating ''/sub'',
                     ListFolder ''/sub'' (Some (ApiError ''path/not_found''))])"
    by (simp add: broken_client_def)
  from listing_failure_aborts [OF absent r1 f1, of example_codec]
       listing_failure_aborts [OF absent r2 f2, of example_codec]
  show ?thesis by (simp add: Path_list example_disk_def)
qed

text \<open>
  C9. When the lister has built a list by traversal and persisted it at the cache path,
  and the \<open>json\<close> module reads back the list it wrote, a second call with the same
  cache path, on any remote side, returns the same list (hence the same set of tuples),
  sends no listing request, and leaves the remote state and the file system as they are.
\<close>

theorem cache_round_trip:
  assumes absent: "os_path_exists fs (Some loc) = Inr False"
    and first: "get_file_list_recursive dbx js link_root (Some loc) fs s = Some (Inr m, fs', s', tr)"
    and rt: "json_load_file_list js (json_dump_file_list js link_root m) = Inr m"
  shows "get_file_list_recursive dbx2 js link_root2 (Some loc) fs' s2 = Some (Inr m, fs', s2, [])"
proof -
  from absent first have w: "open_write fs loc (json_dump_file_list js link_root m) = Inr fs'"
    by (auto simp: get_file_list_recursive_def split: sum.splits option.splits)
  then have loc: "loc \<noteq> []" by (auto simp: open_write_def split: if_splits)
  from w loc have fs': "fs' = fs(Path loc \<mapsto> File (json_dump_file_list js link_root m))"
    by (auto simp: open_write_def write_file_def split: option.splits node.splits if_splits)
  show ?thesis
    using loc rt
    by (simp add: get_file_list_recursive_def os_path_exists_def path_exists_def open_read_def
          read_file_def fs')
qed

lemma single_traverse:
  "traverse (tree_client [RFile ''a.txt'' ''h1'' 10] 2) ''link'' [[]] [] () []
   = Some (Inr [([], ''a.txt'', ''h1'', 10)], (), [Investigating [], ListFolder [] None])"
  by (subst traverse.simps, subst fetch_more.simps, subst traverse.simps)
     (simp add: tree_client_def page_of_def)

theorem cache_round_trip_witness:
  "os_path_exists example_disk (Some ''list.json'') = Inr False
   \<and> get_file_list_recursive (tree_client [RFile ''a.txt'' ''h1'' 10] 2) example_codec ''link''
         (Some ''list.json'') example_disk ()
       = Some (Inr [([], ''a.txt'', ''h1'', 10)],
               example_disk((False, [''list.json'']) \<mapsto> File [1]), (),
               [Investigating [], ListFolder [] None])
   \<and> get_file_list_recursive flaky_client example_codec ''link'' (Some ''list.json'')
         (example_disk((False, [''list.json'']) \<mapsto> File [1])) ()
       = Some (Inr [([], ''a.txt'', ''h1'', 10)],
               example_disk((False, [''list.json'']) \<mapsto> File [1]), (), [])"
proof -
  have a: "os_path_exists example_disk (Some ''list.json'') = Inr False"
    by (simp add: os_path_exists_def path_exists_def Path_list example_disk_def)
  have b: "get_file_list_recursive (tree_client [RFile ''a.txt'' ''h1'' 10] 2) example_codec ''link''
             (Some ''list.json'') example_disk ()
           = Some (Inr [([], ''a.txt'', ''h1'', 10)],
                   example_disk((False, [''list.json'']) \<mapsto> File [1]), (),
                   [Investigating [], ListFolder [] None])"
    using a
    by (simp add: get_file_list_recursive_def single_traverse open_write_def write_file_def
          Path_list example_disk_def example_codec_def parent_def)
  have c: "json_load_file_list example_codec
             (json_dump_file_list example_codec ''link'' [([], ''a.txt'', ''h1'', 10)])
           = Inr [([], ''a.txt'', ''h1'', 10)]"
    by (simp add: example_codec_def)
  from cache_round_trip [OF a b c, of flaky_client "''link''" "()"] a b show ?thesis by simp
qed

text \<open>
  C6. When no cache path is given (\<open>file_list_location\<close> is \<open>None\<close>), the lister
  raises \<open>TypeError\<close> at its first statement, \<open>os.path.exists(file_list_location)\<close>: no
  request is sent and no list is returned, although the guard
  \<open>if file_list_location is not None\<close> before the write shows that \<open>None\<close> was meant to
  be accepted.
\<close>

theorem lister_rejects_missing_cache_path:
  "get_file_list_recursive dbx js link_root None fs s = Some (Inl TypeError, fs, s, [])"
  by (simp add: get_file_list_recursive_def os_path_exists_def)

text \<open>
  C10. When the file list, cut to \<open>max_num_files\<close>, is empty, the main program raises
  \<open>TypeError\<close> while adding up the sizes (\<open>reduce\<close> without an initial value), and the
  scheduler is never entered: nothing is printed, planned, submitted or transferred,
  whatever the transfer client and the schedule.
\<close>

theorem empty_manifest_raises:
  assumes tok: "args_api_token_file a \<noteq> []" "fs (Path (args_api_token_file a)) = Some (File content)"
      "json_load_api_token js content = Inr api_token"
    and lst: "get_file_list_recursive dbx js (args_shared_link a) (args_file_list_location a) fs s
              = Some (Inr all_files, fs', s', tr)"
    and emp: "(case args_max_num_files a of Some max_num_files \<Rightarrow> slice_to all_files max_num_files
               | None \<Rightarrow> all_files) = []"
  shows "main sha dbx fetch js sch order a fs s
         = Some (Inl TypeError, \<lparr>disk = fs', futures = [], outcomes = [], events = []\<rparr>, s', tr)"
  using assms
  by (simp add: main_def path_exists_def open_read_def read_file_def Let_def)

lemma example_lister_cached:
  "get_file_list_recursive (tree_client [] 1) example_codec ''link'' (Some ''list.json'')
      example_disk_cached () = Some (Inr [], example_disk_cached, (), [])"
  by (simp add: get_file_list_recursive_def os_path_exists_def path_exists_def Path_list
        example_disk_cached_def open_read_def read_file_def example_codec_def)

theorem empty_manifest_raises_witness:
  "main (\<lambda>bs. bs) (tree_client [] 1) (\<lambda>u p. Inr []) example_codec (\<lambda>i. []) []
      example_args example_disk_cached ()
   = Some (Inl TypeError,
           \<lparr>disk = example_disk_cached, futures = [], outcomes = [], events = []\<rparr>, (), [])"
proof -
  have a: "args_api_token_file example_args \<noteq> []" by (simp add: example_args_def)
  have b: "example_disk_cached (Path (args_api_token_file example_args)) = Some (File [])"
    by (simp add: example_args_def Path_secrets example_disk_cached_def example_disk_def)
  have c: "json_load_api_token example_codec [] = Inr ''token''" by (simp add: example_codec_def)
  have d: "get_file_list_recursive (tree_client [] 1) example_codec (args_shared_link example_args)
             (args_file_list_location example_args) example_disk_cached ()
           = Some (Inr [], example_disk_cached, (), [])"
    using example_lister_cached by (simp add: example_args_def)
  have e: "(case args_max_num_files example_args of
              Some max_num_files \<Rightarrow> slice_to [] max_num_files | None \<Rightarrow> ([]::entry list)) = []"
    by (simp add: example_args_def)
  show ?thesis by (rule empty_manifest_raises [OF a b c d e])
qed

section \<open>Properties of the scheduler\<close>

lemma mkdir_other: "mkdir fs p = Inr fs' \<Longrightarrow> fs' = fs(p \<mapsto> Dir) \<and> fs p = None"
  by (auto simp: mkdir_def split: if_splits option.splits node.splits)

lemma mkdir_frame:
  "mkdir fs p = Inr fs' \<Longrightarrow> fs' q = fs q \<or> (fs q = None \<and> fs' q = Some Dir \<and> q = p)"
  using mkdir_other [of fs p fs'] by auto

lemma makedirs_comps_frame:
  "makedirs_comps fs ab cs = (r, fs') \<Longrightarrow>
     fs' q = fs q \<or> (fs q = None \<and> fs' q = Some Dir \<and> fst q = ab \<and> length (snd q) \<le> length cs)"
proof (induction fs ab cs arbitrary: r fs' rule: makedirs_comps.induct)
  case (1 fs ab)
  show ?case
  proof (cases "mkdir fs (ab, [])")
    case (Inl e)
    with "1.prems" show ?thesis by simp
  next
    case (Inr fs2)
    with "1.prems" have "fs' = fs2" by simp
    with mkdir_frame [OF Inr, of q] show ?thesis by auto
  qed
next
  case (2 fs ab c cs)
  define fs1 where "fs1 = (if cs \<noteq> [] \<and> \<not> path_exists fs (ab, rev cs)
                           then snd (makedirs_comps fs ab cs) else fs)"
  have fr1: "fs1 q = fs q
             \<or> (fs q = None \<and> fs1 q = Some Dir \<and> fst q = ab \<and> length (snd q) \<le> length cs)"
  proof (cases "cs \<noteq> [] \<and> \<not> path_exists fs (ab, rev cs)")
    case False
    then show ?thesis by (auto simp: fs1_def)
  next
    case True
    obtain r1 f1 where rec: "makedirs_comps fs ab cs = (r1, f1)"
      by (cases "makedirs_comps fs ab cs")
    from "2.IH" [OF True rec] rec True show ?thesis by (simp add: fs1_def)
  qed
  have "fs' = fs1 \<or> mkdir fs1 (ab, rev (c # cs)) = Inr fs'"
    using "2.prems"
    by (auto simp: fs1_def Let_def split: if_splits prod.splits option.splits error.splits sum.splits)
  then show ?case
  proof
    assume "fs' = fs1"
    with fr1 show ?thesis by auto
  next
    assume "mkdir fs1 (ab, rev (c # cs)) = Inr fs'"
    from mkdir_frame [OF this, of q] fr1 show ?thesis by auto
  qed
qed





lemma plan_entry_made:
  assumes "plan_entry sha target_dir link_root e st = (None, st')"
  obtains fs1 where
    "ensure_parent (disk st) (target_file_of target_dir e) = (None, fs1)"
    "st' = (if up_to_date sha fs1 (target_file_of target_dir e) (fst (snd (snd e)))
            then st\<lparr>disk := fs1, events := events st @ [Plan e]\<rparr>
            else submit (task_of target_dir link_root e)
                   (st\<lparr>disk := fs1, events := events st @ [Plan e]\<rparr>))"
proof -
  obtain path name content_hash sz where e: "e = (path, name, content_hash, sz)" by (cases e)
  obtain r fs1 where ep: "ensure_parent (disk st) (target_file_of target_dir e) = (r, fs1)"
    by (cases "ensure_parent (disk st) (target_file_of target_dir e)")
  from assms ep have r: "r = None"
    by (cases r) (auto simp: plan_entry_def e Let_def)
  have 2: "st' = (if up_to_date sha fs1 (target_file_of target_dir e) (fst (snd (snd e)))
            then st\<lparr>disk := fs1, events := events st @ [Plan e]\<rparr>
            else submit (task_of target_dir link_root e)
                   (st\<lparr>disk := fs1, events := events st @ [Plan e]\<rparr>))"
    using assms ep [unfolded e] r
    by (auto simp: plan_entry_def e Let_def up_to_date_def split: sum.splits if_splits)
  from that [OF ep [unfolded r] 2] show ?thesis .
qed



lemma run_worker_keeps:
  "futures (run_worker fetch j st) = futures st"
  "length (outcomes (run_worker fetch j st)) = length (outcomes st)"
  "main_thread (events (run_worker fetch j st)) = main_thread (events st)"
  by (auto simp: run_worker_def main_thread_def split: prod.splits)

lemma run_workers_keeps:
  "futures (run_workers fetch js st) = futures st"
  "length (outcomes (run_workers fetch js st)) = length (outcomes st)"
  "main_thread (events (run_workers fetch js st)) = main_thread (events st)"
  by (induction js arbitrary: st) (simp_all add: run_worker_keeps)

lemma shutdown_keeps:
  "futures (shutdown fetch order st) = futures st"
  "length (outcomes (shutdown fetch order st)) = length (outcomes st)"
  "main_thread (events (shutdown fetch order st)) = main_thread (events st)"
  by (simp_all add: shutdown_def run_workers_keeps)

lemma main_thread_append: "main_thread (xs @ ys) = main_thread xs @ main_thread ys"
  by (simp add: main_thread_def)

lemma plan_entry_events:
  assumes "plan_entry sha target_dir link_root e st = (r, st')"
  shows "\<exists>b. main_thread (events st') = main_thread (events st) @ planned target_dir link_root (e, b)
             \<and> futures st' = futures st @ (if b then [task_of target_dir link_root e] else [])
             \<and> (r \<noteq> None \<longrightarrow> \<not> b)"
proof -
  obtain path name content_hash sz where e: "e = (path, name, content_hash, sz)" by (cases e)
  obtain r1 fs1 where ep: "ensure_parent (disk st) (target_file_of target_dir e) = (r1, fs1)"
    by (cases "ensure_parent (disk st) (target_file_of target_dir e)")
  let ?st1 = "st\<lparr>disk := fs1, events := events st @ [Plan e]\<rparr>"
  have "st' = ?st1 \<and> True \<or> (r = None \<and> st' = submit (task_of target_dir link_root e) ?st1)"
    using assms ep [unfolded e]
    by (cases r1) (auto simp: plan_entry_def e Let_def split: sum.splits if_splits)
  then show ?thesis
  proof
    assume "st' = ?st1 \<and> True"
    then show ?thesis
      by (intro exI [of _ False]) (simp add: main_thread_append planned_def main_thread_def)
  next
    assume "r = None \<and> st' = submit (task_of target_dir link_root e) ?st1"
    then show ?thesis
      by (intro exI [of _ True])
         (simp add: main_thread_append planned_def main_thread_def submit_def)
  qed
qed

lemma plan_loop_events:
  assumes "plan_loop sha fetch sch target_dir link_root i es st = (r, st')"
  shows "\<exists>flags. length flags \<le> length es \<and> (r = None \<longrightarrow> length flags = length es)
           \<and> main_thread (events st')
               = main_thread (events st) @ concat (map (planned target_dir link_root) (zip es flags))"
  using assms
proof (induction es arbitrary: i st)
  case Nil
  then show ?case by simp
next
  case (Cons e es)
  obtain r1 st1 where pe: "plan_entry sha target_dir link_root e (run_workers fetch (sch i) st) = (r1, st1)"
    by (cases "plan_entry sha target_dir link_root e (run_workers fetch (sch i) st)")
  from plan_entry_events [OF pe] obtain b where
    b: "main_thread (events st1) = main_thread (events st) @ planned target_dir link_root (e, b)"
    by (auto simp: run_workers_keeps)
  show ?case
  proof (cases r1)
    case (Some err)
    with Cons.prems pe have "r = Some err" "st' = st1" by auto
    with b show ?thesis by (intro exI [of _ "[b]"]) simp
  next
    case None
    with Cons.prems pe have "plan_loop sha fetch sch target_dir link_root (Suc i) es st1 = (r, st')"
      by simp
    from Cons.IH [OF this] obtain flags where
      f: "length flags \<le> length es" "r = None \<longrightarrow> length flags = length es"
         "main_thread (events st') = main_thread (events st1)
            @ concat (map (planned target_dir link_root) (zip es flags))"
      by blast
    with b show ?thesis by (intro exI [of _ "b # flags"]) simp
  qed
qed

lemma collect_events:
  assumes "collect fetch sch i js st = (r, st')"
  shows "\<exists>js'. main_thread (events st') = main_thread (events st) @ map Join js'
           \<and> futures st' = futures st"
  using assms
proof (induction js arbitrary: i st)
  case Nil
  then show ?case by (intro exI [of _ "[]"]) simp
next
  case (Cons j js)
  let ?st1 = "run_worker fetch j (run_workers fetch (sch i) st)"
  let ?st2 = "?st1\<lparr>events := events ?st1 @ [Join j]\<rparr>"
  have m2: "main_thread (events ?st2) = main_thread (events st) @ [Join j]"
    by (simp add: main_thread_append run_worker_keeps run_workers_keeps) (simp add: main_thread_def)
  have f2: "futures ?st2 = futures st" by (simp add: run_worker_keeps run_workers_keeps)
  from Cons.prems have "(r, st') = (r, ?st2) \<and> True \<or> collect fetch sch (Suc i) js ?st2 = (r, st')"
    by (auto simp: Let_def split: option.splits sum.splits)
  then show ?case
  proof
    assume "(r, st') = (r, ?st2) \<and> True"
    then have "st' = ?st2" by simp
    with m2 f2 show ?thesis by (intro exI [of _ "[j]"]) simp
  next
    assume "collect fetch sch (Suc i) js ?st2 = (r, st')"
    from Cons.IH [OF this] obtain js' where
      "main_thread (events st') = main_thread (events ?st2) @ map Join js'" "futures st' = futures ?st2"
      by blast
    with m2 f2 show ?thesis by (intro exI [of _ "j # js'"]) simp
  qed
qed

lemma scenario_targets:
  "target_file_of ''out'' ([], ''a.txt'', ''01'', 10) = (False, [''out'', ''a.txt''])"
  "target_file_of ''out'' (''/sub'', ''b.txt'', ''h2'', 20) = (False, [''out'', ''sub'', ''b.txt''])"
  by (simp_all add: target_file_of_def Path_def path_join_def strip_slash_def)

lemma scenario_tasks:
  "task_of ''out'' ''link'' ([], ''a.txt'', ''01'', 10) = scenario_task_a"
  "task_of ''out'' ''link'' (''/sub'', ''b.txt'', ''h2'', 20) = scenario_task"
  by (simp_all add: task_of_def scenario_targets scenario_task_def scenario_task_a_def join_slash_def)

lemma fresh_run:
  "download_file_list example_sha example_fetch eager_schedule [] scenario_manifest ''out'' ''link'' 1
     example_disk
   = (Inr (),
      \<lparr>disk = example_disk((False, [''out'']) \<mapsto> Dir, (False, [''out'', ''a.txt'']) \<mapsto> File [7],
                            (False, [''out'', ''sub'']) \<mapsto> Dir,
                            (False, [''out'', ''sub'', ''b.txt'']) \<mapsto> File [7]),
       futures = [scenario_task_a, scenario_task],
       outcomes = [Some (Inr ()), Some (Inr ())],
       events = [PrintChecking, Plan ([], ''a.txt'', ''01'', 10), Submit scenario_task_a, Run 0,
                 Plan (''/sub'', ''b.txt'', ''h2'', 20), Submit scenario_task,
                 PrintDownloading 2, Join 0, Run 1, Join 1]\<rparr>)"
  by (simp add: download_file_list_def scenario_manifest_def plan_entry_def scenario_targets
        scenario_tasks ensure_parent_def parent_def path_exists_def example_disk_def makedirs_def
        mkdir_def submit_def eager_schedule_def run_worker_def
        sharing_get_shared_link_file_to_file_def example_fetch_def write_file_def
        scenario_task_def scenario_task_a_def shutdown_def Let_def upt_rec)

text \<open>
  C5, as stated, fails: the first loop submits an entry's task as soon as the entry is
  planned, so with two entries to fetch the first task is submitted (and here carried
  out by a worker) before the second entry is planned.
\<close>

theorem planning_before_dispatch_counterexample:
  "\<not> planning_first
       (events (snd (download_file_list example_sha example_fetch eager_schedule [] scenario_manifest
                       ''out'' ''link'' 1 example_disk)))"
  by (simp add: fresh_run)

text \<open>
  C5, amended. The main thread plans the entries in order and submits an entry's task
  right after planning that entry, inside the first loop; it starts collecting results
  only after the first loop has gone through the whole list. (The workers' calls may
  fall anywhere after their submission.)
\<close>

theorem submit_inside_planning_loop:
  assumes "0 < n_parallel"
    and "download_file_list sha fetch sch order files_to_download target_dir link_root n_parallel fs
         = (r, st)"
  shows "\<exists>flags rest js.
           length flags \<le> length files_to_download
           \<and> main_thread (events st)
               = PrintChecking
                 # concat (map (planned target_dir link_root) (zip files_to_download flags)) @ rest
           \<and> (rest = [] \<or> length flags = length files_to_download
                              \<and> rest = PrintDownloading (length (futures st)) # map Join js)"
proof -
  let ?st0 = "\<lparr>disk = fs, futures = [], outcomes = [], events = [PrintChecking]\<rparr>"
  obtain r1 st1 where pl: "plan_loop sha fetch sch target_dir link_root 0 files_to_download ?st0 = (r1, st1)"
    by (cases "plan_loop sha fetch sch target_dir link_root 0 files_to_download ?st0")
  from plan_loop_events [OF pl] obtain flags where
    f: "length flags \<le> length files_to_download"
       "r1 = None \<longrightarrow> length flags = length files_to_download"
       "main_thread (events st1)
          = PrintChecking # concat (map (planned target_dir link_root) (zip files_to_download flags))"
    by (auto simp: main_thread_def)
  show ?thesis
  proof (cases r1)
    case (Some err)
    with assms pl have "st = shutdown fetch order st1" by (simp add: download_file_list_def)
    with f show ?thesis
      by (intro exI [of _ flags] exI [of _ "[]"]) (simp add: shutdown_keeps)
  next
    case None
    let ?st1' = "st1\<lparr>events := events st1 @ [PrintDownloading (length (futures st1))]\<rparr>"
    obtain r2 st2 where
      co: "collect fetch sch (length files_to_download) [0..<length (futures st1)] ?st1' = (r2, st2)"
      by (cases "collect fetch sch (length files_to_download) [0..<length (futures st1)] ?st1'")
    from collect_events [OF co] obtain js where
      js: "main_thread (events st2) = main_thread (events ?st1') @ map Join js"
          "futures st2 = futures st1"
      by auto
    from assms pl None co have st: "st = shutdown fetch order st2"
      by (cases r2) (simp_all add: download_file_list_def)
    have "main_thread (events st)
           = PrintChecking # concat (map (planned target_dir link_root) (zip files_to_download flags))
             @ PrintDownloading (length (futures st)) # map Join js"
      using js f(3) by (simp add: st shutdown_keeps main_thread_append) (simp add: main_thread_def)
    with f None show ?thesis
      by (intro exI [of _ flags] exI [of _ "PrintDownloading (length (futures st)) # map Join js"]
            exI [of _ js]) simp
  qed
qed

theorem submit_inside_planning_loop_witness:
  "(0::int) < 1
   \<and> (\<exists>flags rest js.
         length flags \<le> length scenario_manifest
         \<and> main_thread (events (snd (download_file_list example_sha example_fetch eager_schedule []
                                        scenario_manifest ''out'' ''link'' 1 example_disk)))
             = PrintChecking # concat (map (planned ''out'' ''link'') (zip scenario_manifest flags))
               @ rest
         \<and> (rest = [] \<or> length flags = length scenario_manifest
                            \<and> rest = PrintDownloading
                                       (length (futures (snd (download_file_list example_sha
                                          example_fetch eager_schedule [] scenario_manifest ''out''
                                          ''link'' 1 example_disk))))
                                     # map Join js))"
proof -
  have pos: "(0::int) < 1" by simp
  from submit_inside_planning_loop [OF pos fresh_run] show ?thesis
    by (simp only: fresh_run snd_conv pos simp_thms)
qed

lemma joined_append: "joined (xs @ ys) = joined xs @ joined ys"
  by (induction xs rule: joined.induct) simp_all

lemma run_worker_stable:
  "outcomes st ! i \<noteq> None \<Longrightarrow> outcomes (run_worker fetch j st) ! i = outcomes st ! i"
  by (cases "i = j") (auto simp: run_worker_def split: prod.splits)

lemma run_worker_outcomes:
  "balanced st \<Longrightarrow> balanced (run_worker fetch j st)"
  "outcomes st ! i \<noteq> None \<Longrightarrow> outcomes (run_worker fetch j st) ! i = outcomes st ! i"
  "balanced st \<Longrightarrow> j < length (futures st) \<Longrightarrow> outcomes (run_worker fetch j st) ! j \<noteq> None"
  "joined (events (run_worker fetch j st)) = joined (events st)"
     apply (simp add: run_worker_def balanced_def split: prod.splits)
    apply (erule run_worker_stable)
   apply (auto simp: run_worker_def balanced_def split: prod.splits)[1]
  apply (simp add: run_worker_def joined_append split: prod.splits)
  done

lemma run_workers_outcomes:
  "balanced st \<Longrightarrow> balanced (run_workers fetch js st)"
  "outcomes st ! i \<noteq> None \<Longrightarrow> outcomes (run_workers fetch js st) ! i = outcomes st ! i"
  "joined (events (run_workers fetch js st)) = joined (events st)"
  by (induction js arbitrary: st) (simp_all add: run_worker_outcomes)

lemma run_workers_done:
  "balanced st \<Longrightarrow> j \<in> set js \<Longrightarrow> j < length (futures st)
   \<Longrightarrow> outcomes (run_workers fetch js st) ! j \<noteq> None"
proof (induction js arbitrary: st)
  case Nil
  then show ?case by simp
next
  case (Cons a js)
  show ?case
  proof (cases "a = j")
    case True
    with Cons.prems have "outcomes (run_worker fetch a st) ! j \<noteq> None"
      by (simp add: run_worker_outcomes)
    then show ?thesis by (simp add: run_workers_outcomes)
  next
    case False
    with Cons.prems have "j \<in> set js" by simp
    from Cons.IH [OF run_worker_outcomes(1) [OF Cons.prems(1)] this] Cons.prems(3)
    show ?thesis by (simp add: run_worker_keeps)
  qed
qed

lemma shutdown_outcomes:
  assumes "balanced st"
  shows "balanced (shutdown fetch order st)"
    and "outcomes st ! i \<noteq> None \<Longrightarrow> outcomes (shutdown fetch order st) ! i = outcomes st ! i"
    and "j < length (futures st) \<Longrightarrow> outcomes (shutdown fetch order st) ! j \<noteq> None"
    and "joined (events (shutdown fetch order st)) = joined (events st)"
  using assms
  by (simp_all add: shutdown_def run_workers_outcomes run_workers_done)

lemma first_failure_none:
  "(\<forall>i < length os. os ! i = Some (Inr ())) \<Longrightarrow> first_failure os = None"
proof (induction os)
  case Nil
  then show ?case by simp
next
  case (Cons a os)
  from Cons.prems have "a = Some (Inr ())" by auto
  moreover from Cons.prems have "\<forall>i < length os. os ! i = Some (Inr ())" by auto
  ultimately show ?case using Cons.IH by simp
qed

lemma first_failure_some:
  "k < length os \<Longrightarrow> (\<forall>i < k. os ! i = Some (Inr ())) \<Longrightarrow> os ! k = Some (Inl e)
   \<Longrightarrow> first_failure os = Some e"
proof (induction os arbitrary: k)
  case Nil
  then show ?case by simp
next
  case (Cons a os)
  show ?case
  proof (cases k)
    case 0
    with Cons.prems show ?thesis by simp
  next
    case (Suc k')
    with Cons.prems have "a = Some (Inr ())" by auto
    moreover from Cons.prems Suc have "k' < length os" "\<forall>i < k'. os ! i = Some (Inr ())"
      "os ! k' = Some (Inl e)" by auto
    ultimately show ?thesis using Cons.IH [of k'] by simp
  qed
qed

lemma collect_outcomes:
  assumes "balanced st" "n = length (futures st)" "a \<le> n"
    and "\<forall>i < a. outcomes st ! i = Some (Inr ())"
    and "collect fetch sch i [a..<n] st = (r, st')"
  shows "balanced st' \<and> futures st' = futures st
         \<and> (case r of
               None \<Rightarrow> (\<forall>i < n. outcomes st' ! i = Some (Inr ()))
                        \<and> joined (events st') = joined (events st) @ [a..<n]
             | Some e \<Rightarrow> (\<exists>k. a \<le> k \<and> k < n \<and> (\<forall>i < k. outcomes st' ! i = Some (Inr ()))
                              \<and> outcomes st' ! k = Some (Inl e)
                              \<and> joined (events st') = joined (events st) @ [a..<Suc k]))"
  using assms
proof (induction "n - a" arbitrary: a i st)
  case 0
  then show ?case by simp
next
  case (Suc d)
  then have lt: "a < n" by simp
  then have upt: "[a..<n] = a # [Suc a..<n]" by (simp add: upt_rec)
  let ?st1 = "run_worker fetch a (run_workers fetch (sch i) st)"
  let ?st2 = "?st1\<lparr>events := events ?st1 @ [Join a]\<rparr>"
  have bal0: "balanced (run_workers fetch (sch i) st)"
    using Suc.prems(1) by (simp add: run_workers_outcomes)
  have bal2: "balanced ?st2"
    using run_worker_outcomes(1) [OF bal0, of fetch a] by (simp add: balanced_def)
  have fut2: "futures ?st2 = futures st" by (simp add: run_worker_keeps run_workers_keeps)
  have ran: "outcomes ?st2 ! a \<noteq> None"
    using run_worker_outcomes(3) [OF bal0, of a fetch] lt Suc.prems(2)
    by (simp add: run_workers_keeps)
  have old: "\<forall>i < a. outcomes ?st2 ! i = Some (Inr ())"
    using Suc.prems(4) by (simp add: run_worker_outcomes run_workers_outcomes)
  have j2: "joined (events ?st2) = joined (events st) @ [a]"
    by (simp add: joined_append run_worker_outcomes run_workers_outcomes)
  show ?case
  proof (cases "outcomes ?st2 ! a")
    case None
    with ran show ?thesis by simp
  next
    case (Some o1)
    show ?thesis
    proof (cases o1)
      case (Inl e)
      with Some Suc.prems(5) upt have "r = Some e" "st' = ?st2" by (auto simp: Let_def)
      with Some Inl bal2 fut2 old j2 lt show ?thesis
        by (auto intro!: exI [of _ a])
    next
      case (Inr u)
      with Some Suc.prems(5) upt have co: "collect fetch sch (Suc i) [Suc a..<n] ?st2 = (r, st')"
        by (auto simp: Let_def)
      have old': "\<forall>i < Suc a. outcomes ?st2 ! i = Some (Inr ())"
        using old Some Inr by (auto simp: less_Suc_eq)
      have d: "d = n - Suc a" using Suc.hyps(2) by simp
      have n2: "n = length (futures ?st2)" using fut2 Suc.prems(2) by simp
      from Suc.hyps(1) [OF d bal2 n2 _ old' co] lt
      have res: "balanced st' \<and> futures st' = futures ?st2
         \<and> (case r of
               None \<Rightarrow> (\<forall>i < n. outcomes st' ! i = Some (Inr ()))
                        \<and> joined (events st') = joined (events ?st2) @ [Suc a..<n]
             | Some e \<Rightarrow> (\<exists>k. Suc a \<le> k \<and> k < n \<and> (\<forall>i < k. outcomes st' ! i = Some (Inr ()))
                              \<and> outcomes st' ! k = Some (Inl e)
                              \<and> joined (events st') = joined (events ?st2) @ [Suc a..<Suc k]))"
        by simp
      show ?thesis
      proof (cases r)
        case None
        with res fut2 j2 upt show ?thesis by simp
      next
        case (Some e)
        with res obtain k where k: "Suc a \<le> k" "k < n" "\<forall>i < k. outcomes st' ! i = Some (Inr ())"
          "outcomes st' ! k = Some (Inl e)"
          "joined (events st') = joined (events ?st2) @ [Suc a..<Suc k]" by auto
        have "joined (events st') = joined (events st) @ [a..<Suc k]"
          using k(1,5) j2 by (simp add: upt_rec [of a])
        with k res fut2 Some show ?thesis by (auto intro!: exI [of _ k])
      qed
    qed
  qed
qed

lemma plan_entry_shape:
  assumes "plan_entry sha target_dir link_root e st = (r, st')"
  obtains fs1 where
    "st' = st\<lparr>disk := fs1, events := events st @ [Plan e]\<rparr>
     \<or> r = None \<and> st' = submit (task_of target_dir link_root e)
                            (st\<lparr>disk := fs1, events := events st @ [Plan e]\<rparr>)"
proof -
  obtain path name content_hash sz where e: "e = (path, name, content_hash, sz)" by (cases e)
  obtain r1 fs1 where ep: "ensure_parent (disk st) (target_file_of target_dir e) = (r1, fs1)"
    by (cases "ensure_parent (disk st) (target_file_of target_dir e)")
  have "st' = st\<lparr>disk := fs1, events := events st @ [Plan e]\<rparr>
     \<or> r = None \<and> st' = submit (task_of target_dir link_root e)
                            (st\<lparr>disk := fs1, events := events st @ [Plan e]\<rparr>)"
    using assms ep [unfolded e]
    by (cases r1) (auto simp: plan_entry_def e Let_def split: sum.splits if_splits)
  then show ?thesis by (rule that)
qed

lemma plan_entry_balanced:
  assumes "plan_entry sha target_dir link_root e st = (r, st')" "balanced st"
  shows "balanced st' \<and> joined (events st') = joined (events st)"
proof -
  from assms(1) obtain fs1 where
    "st' = st\<lparr>disk := fs1, events := events st @ [Plan e]\<rparr>
     \<or> r = None \<and> st' = submit (task_of target_dir link_root e)
                            (st\<lparr>disk := fs1, events := events st @ [Plan e]\<rparr>)"
    by (rule plan_entry_shape)
  with assms(2) show ?thesis by (auto simp: balanced_def submit_def joined_append)
qed

lemma plan_loop_balanced:
  assumes "plan_loop sha fetch sch target_dir link_root i es st = (r, st')" "balanced st"
  shows "balanced st' \<and> joined (events st') = joined (events st)"
  using assms
proof (induction es arbitrary: i st)
  case Nil
  then show ?case by simp
next
  case (Cons e es)
  obtain r1 st1 where pe: "plan_entry sha target_dir link_root e (run_workers fetch (sch i) st) = (r1, st1)"
    by (cases "plan_entry sha target_dir link_root e (run_workers fetch (sch i) st)")
  from plan_entry_balanced [OF pe] Cons.prems(2)
  have b1: "balanced st1" "joined (events st1) = joined (events st)"
    by (simp_all add: run_workers_outcomes)
  show ?case
  proof (cases r1)
    case (Some err)
    with Cons.prems pe b1 show ?thesis by auto
  next
    case None
    with Cons.prems pe have "plan_loop sha fetch sch target_dir link_root (Suc i) es st1 = (r, st')"
      by simp
    from Cons.IH [OF this b1(1)] b1(2) show ?thesis by simp
  qed
qed

lemma failing_targets:
  "target_file_of ''out'' ([], ''bad.txt'', ''hx'', 5) = (False, [''out'', ''bad.txt''])"
  by (simp add: target_file_of_def Path_def path_join_def strip_slash_def)

lemma failing_tasks:
  "task_of ''out'' ''link'' ([], ''bad.txt'', ''hx'', 5) = failing_task"
  by (simp add: task_of_def failing_targets failing_task_def join_slash_def)

lemma failing_plan:
  "plan_loop example_sha example_fetch lazy_schedule ''out'' ''link'' 0 failing_manifest
     \<lparr>disk = example_disk, futures = [], outcomes = [], events = [PrintChecking]\<rparr>
   = (None,
      \<lparr>disk = example_disk((False, [''out'']) \<mapsto> Dir, (False, [''out'', ''sub'']) \<mapsto> Dir),
       futures = [failing_task, scenario_task], outcomes = [None, None],
       events = [PrintChecking, Plan ([], ''bad.txt'', ''hx'', 5), Submit failing_task,
                 Plan (''/sub'', ''b.txt'', ''h2'', 20), Submit scenario_task]\<rparr>)"
  by (simp add: failing_manifest_def plan_entry_def failing_targets scenario_targets
        failing_tasks scenario_tasks ensure_parent_def parent_def path_exists_def example_disk_def
        makedirs_def mkdir_def submit_def lazy_schedule_def Let_def)

lemma example_disk_no_target:
  "example_disk (False, [''out'', ''sub'', ''b.txt'']) = None"
  by (simp add: example_disk_def)

lemma failing_run:
  "download_file_list example_sha example_fetch lazy_schedule [] failing_manifest ''out'' ''link'' 1
     example_disk
   = (Inl (ApiError ''download failed''),
      \<lparr>disk = example_disk((False, [''out'']) \<mapsto> Dir, (False, [''out'', ''sub'']) \<mapsto> Dir,
                            (False, [''out'', ''sub'', ''b.txt'']) \<mapsto> File [7]),
       futures = [failing_task, scenario_task],
       outcomes = [Some (Inl (ApiError ''download failed'')), Some (Inr ())],
       events = [PrintChecking, Plan ([], ''bad.txt'', ''hx'', 5), Submit failing_task,
                 Plan (''/sub'', ''b.txt'', ''h2'', 20), Submit scenario_task,
                 PrintDownloading 2, Run 0, Join 0, Run 1]\<rparr>)"
  by (simp add: download_file_list_def failing_plan lazy_schedule_def run_worker_def
        sharing_get_shared_link_file_to_file_def example_fetch_def write_file_def
        scenario_task_def failing_task_def shutdown_def Let_def upt_rec parent_def
        example_disk_no_target)

text \<open>
  C8. When the first loop has gone through, the results are collected in submission
  order, up to the first future whose call raised; the run raises that exception, the
  first among the outcomes in submission order, or ends normally when no call raised.
  No call is cancelled: once the run has ended every submitted call has been made,
  also those submitted after the failing one, whose effects on the file system stay.
\<close>

theorem first_failure_propagates:
  assumes "0 < n_parallel"
    and "fst (plan_loop sha fetch sch target_dir link_root 0 files_to_download
                \<lparr>disk = fs, futures = [], outcomes = [], events = [PrintChecking]\<rparr>) = None"
    and "download_file_list sha fetch sch order files_to_download target_dir link_root n_parallel fs
         = (r, st)"
  shows "length (outcomes st) = length (futures st)
         \<and> (\<forall>j < length (futures st). outcomes st ! j \<noteq> None)
         \<and> r = (case first_failure (outcomes st) of None \<Rightarrow> Inr () | Some e \<Rightarrow> Inl e)
         \<and> (\<exists>k \<le> length (futures st).
               joined (events st) = [0..<k]
               \<and> (\<forall>j < k - 1. outcomes st ! j = Some (Inr ()))
               \<and> (k < length (futures st) \<longrightarrow> r \<noteq> Inr ()))"
proof -
  let ?st0 = "\<lparr>disk = fs, futures = [], outcomes = [], events = [PrintChecking]\<rparr>"
  obtain st1 where pl: "plan_loop sha fetch sch target_dir link_root 0 files_to_download ?st0 = (None, st1)"
    using assms(2) by (cases "plan_loop sha fetch sch target_dir link_root 0 files_to_download ?st0") auto
  have "balanced ?st0" by (simp add: balanced_def)
  from plan_loop_balanced [OF pl this] have b1: "balanced st1" "joined (events st1) = []" by simp_all
  let ?n = "length (futures st1)"
  let ?st1' = "st1\<lparr>events := events st1 @ [PrintDownloading ?n]\<rparr>"
  obtain r2 st2 where co: "collect fetch sch (length files_to_download) [0..<?n] ?st1' = (r2, st2)"
    by (cases "collect fetch sch (length files_to_download) [0..<?n] ?st1'")
  have b1': "balanced ?st1'" "?n = length (futures ?st1')" "joined (events ?st1') = []"
    using b1 by (simp_all add: balanced_def joined_append)
  have j0: "joined (events st1 @ [PrintDownloading (length (futures st1))]) = []"
    using b1 by (simp add: joined_append)
  from collect_outcomes [OF b1'(1,2) _ _ co]
  have c: "balanced st2" "futures st2 = futures st1"
    "case r2 of
       None \<Rightarrow> (\<forall>i < ?n. outcomes st2 ! i = Some (Inr ())) \<and> joined (events st2) = [0..<?n]
     | Some e \<Rightarrow> (\<exists>k. k < ?n \<and> (\<forall>i < k. outcomes st2 ! i = Some (Inr ()))
                      \<and> outcomes st2 ! k = Some (Inl e) \<and> joined (events st2) = [0..<Suc k])"
    by (simp_all add: j0 split: option.splits)
  have st: "st = shutdown fetch order st2"
    and r: "r = (case r2 of None \<Rightarrow> Inr () | Some e \<Rightarrow> Inl e)"
    using assms(1,3) pl co by (cases r2; simp add: download_file_list_def)+
  note sh = shutdown_outcomes [OF c(1), where fetch = fetch and order = order]
  have len: "length (outcomes st) = length (futures st)"
    using sh(1) by (simp add: st balanced_def)
  have fut: "futures st = futures st1" by (simp add: st shutdown_keeps c(2))
  have all: "\<forall>j < length (futures st). outcomes st ! j \<noteq> None"
    using sh(3) by (simp add: st shutdown_keeps)
  show ?thesis
  proof (cases r2)
    case None
    with c(3) have ok: "\<forall>i < ?n. outcomes st2 ! i = Some (Inr ())" and j: "joined (events st2) = [0..<?n]"
      by simp_all
    have ok': "\<forall>i < length (outcomes st). outcomes st ! i = Some (Inr ())"
      using ok sh(2) len fut by (simp add: st)
    from first_failure_none [OF ok'] have "first_failure (outcomes st) = None" .
    with None r len all ok' j fut sh(4) show ?thesis
      by (auto simp: st intro!: exI [of _ ?n])
  next
    case (Some e)
    with c(3) obtain k where k: "k < ?n" "\<forall>i < k. outcomes st2 ! i = Some (Inr ())"
      "outcomes st2 ! k = Some (Inl e)" "joined (events st2) = [0..<Suc k]" by auto
    have k1: "\<forall>i < k. outcomes st ! i = Some (Inr ())" using k(2) sh(2) by (simp add: st)
    have k2: "outcomes st ! k = Some (Inl e)" using k(3) sh(2) by (simp add: st)
    have "k < length (outcomes st)" using k(1) len fut by simp
    from first_failure_some [OF this k1 k2] have ff: "first_failure (outcomes st) = Some e" .
    have "joined (events st) = [0..<Suc k]" using k(4) sh(4) by (simp add: st)
    with Some r len all ff k(1) k1 fut show ?thesis
      by (auto intro!: exI [of _ "Suc k"])
  qed
qed

theorem first_failure_propagates_witness:
  "(0::int) < 1
   \<and> download_file_list example_sha example_fetch lazy_schedule [] failing_manifest ''out'' ''link'' 1
       example_disk
     = (Inl (ApiError ''download failed''),
        \<lparr>disk = example_disk((False, [''out'']) \<mapsto> Dir, (False, [''out'', ''sub'']) \<mapsto> Dir,
                              (False, [''out'', ''sub'', ''b.txt'']) \<mapsto> File [7]),
         futures = [failing_task, scenario_task],
         outcomes = [Some (Inl (ApiError ''download failed'')), Some (Inr ())],
         events = [PrintChecking, Plan ([], ''bad.txt'', ''hx'', 5), Submit failing_task,
                   Plan (''/sub'', ''b.txt'', ''h2'', 20), Submit scenario_task,
                   PrintDownloading 2, Run 0, Join 0, Run 1]\<rparr>)
   \<and> Inl (ApiError ''download failed'')
       = (case first_failure [Some (Inl (ApiError ''download failed'')), Some (Inr ())] of
            None \<Rightarrow> Inr () | Some e \<Rightarrow> Inl e)
   \<and> (\<exists>k \<le> 2. joined [PrintChecking, Plan ([], ''bad.txt'', ''hx'', 5), Submit failing_task,
                           Plan (''/sub'', ''b.txt'', ''h2'', 20), Submit scenario_task,
                           PrintDownloading 2, Run 0, Join 0, Run 1] = [0..<k])"
proof -
  have pos: "(0::int) < 1" by simp
  have pl: "fst (plan_loop example_sha example_fetch lazy_schedule ''out'' ''link'' 0 failing_manifest
                   \<lparr>disk = example_disk, futures = [], outcomes = [], events = [PrintChecking]\<rparr>)
            = None"
    by (simp add: failing_plan)
  from first_failure_propagates [OF pos pl failing_run] failing_run show ?thesis
    by (auto simp: numeral_2_eq_2)
qed

section \<open>Repeated runs of the scheduler\<close>

lemma up_to_date_iff:
  "up_to_date sha fs p h = (\<exists>data. fs p = Some (File data) \<and> content_hash_spec sha data = h)"
  by (auto simp: up_to_date_def path_exists_def db_content_hash_def read_file_def
        content_hash_spec_def hash_chunks_eq split: option.splits node.splits)

lemma task_of_target [simp]:
  "download_path (task_of target_dir link_root e) = target_file_of target_dir e"
  "url (task_of target_dir link_root e) = link_root"
  by (cases e; simp add: task_of_def)+

lemma task_of_remote:
  "remote_path (task_of target_dir link_root (path, name, content_hash, sz)) = join_slash path name"
  by (simp add: task_of_def)

lemma write_file_frame:
  "write_file fs p data = Inr fs' \<Longrightarrow> fs' = fs(p \<mapsto> File data)"
  by (auto simp: write_file_def split: option.splits node.splits if_splits)

text \<open>A transfer either leaves the file system alone or writes its target.\<close>

lemma transfer_cases:
  assumes "sharing_get_shared_link_file_to_file fetch t fs = (r, fs')"
  shows "(r \<noteq> Inr () \<and> fs' = fs)
         \<or> (\<exists>data. r = Inr () \<and> fetch (url t) (remote_path t) = Inr data
                    \<and> fs' = fs(download_path t \<mapsto> File data))"
  using assms
  by (auto simp: sharing_get_shared_link_file_to_file_def split: sum.splits dest: write_file_frame)

lemma progress_run_worker:
  assumes inv: "progress sha target_dir link_root es st"
    and dist: "inj_on (target_file_of target_dir) (set es)"
    and faith: "\<forall>e \<in> set es. faithful sha fetch link_root e"
  shows "progress sha target_dir link_root es (run_worker fetch j st)"
proof (cases "j < length (futures st) \<and> outcomes st ! j = None")
  case False
  then have "run_worker fetch j st = st" by (auto simp: run_worker_def)
  then show ?thesis using inv by simp
next
  case True
  from inv have bal: "balanced st"
    and fut: "\<forall>t \<in> set (futures st). \<exists>e \<in> set es. t = task_of target_dir link_root e"
    and ent: "\<forall>e \<in> set es. path_exists (disk st) (parent (target_file_of target_dir e))
                \<and> (up_to_date sha (disk st) (target_file_of target_dir e) (entry_hash e)
                     \<or> pending target_dir link_root st e)"
    by (simp_all add: progress_def)
  from True fut obtain ej where ej: "ej \<in> set es" "futures st ! j = task_of target_dir link_root ej"
    by (metis nth_mem)
  obtain r fs' where tr: "sharing_get_shared_link_file_to_file fetch (futures st ! j) (disk st) = (r, fs')"
    by (cases "sharing_get_shared_link_file_to_file fetch (futures st ! j) (disk st)")
  let ?st' = "st\<lparr>disk := fs', outcomes := (outcomes st)[j := Some r], events := events st @ [Run j]\<rparr>"
  have st': "run_worker fetch j st = ?st'" using True tr by (simp add: run_worker_def)
  have jlen: "j < length (outcomes st)" using True bal by (simp add: balanced_def)
  have bal': "balanced ?st'" using bal by (simp add: balanced_def)
  have fut': "\<forall>t \<in> set (futures ?st'). \<exists>e \<in> set es. t = task_of target_dir link_root e"
    using fut by simp
  from transfer_cases [OF tr]
  have ent': "\<forall>e \<in> set es. path_exists fs' (parent (target_file_of target_dir e))
                \<and> (up_to_date sha fs' (target_file_of target_dir e) (entry_hash e)
                     \<or> pending target_dir link_root ?st' e)"
  proof
    assume fail: "r \<noteq> Inr () \<and> fs' = disk st"
    show ?thesis
    proof
      fix e assume e: "e \<in> set es"
      from ent e have p: "path_exists (disk st) (parent (target_file_of target_dir e))"
        and c: "up_to_date sha (disk st) (target_file_of target_dir e) (entry_hash e)
                \<or> pending target_dir link_root st e" by auto
      from c have "up_to_date sha fs' (target_file_of target_dir e) (entry_hash e)
                   \<or> pending target_dir link_root ?st' e"
      proof
        assume "up_to_date sha (disk st) (target_file_of target_dir e) (entry_hash e)"
        with fail show ?thesis by simp
      next
        assume "pending target_dir link_root st e"
        then obtain i where i: "i < length (futures st)" "futures st ! i = task_of target_dir link_root e"
          "outcomes st ! i \<noteq> Some (Inr ())" by (auto simp: pending_def)
        have "((outcomes st)[j := Some r]) ! i \<noteq> Some (Inr ())"
          using i(3) fail jlen by (cases "i = j") auto
        with i have "pending target_dir link_root ?st' e" by (auto simp: pending_def)
        then show ?thesis ..
      qed
      with p fail show "path_exists fs' (parent (target_file_of target_dir e))
                \<and> (up_to_date sha fs' (target_file_of target_dir e) (entry_hash e)
                     \<or> pending target_dir link_root ?st' e)" by simp
    qed
  next
    assume "\<exists>data. r = Inr () \<and> fetch (url (futures st ! j)) (remote_path (futures st ! j)) = Inr data
                 \<and> fs' = (disk st)(download_path (futures st ! j) \<mapsto> File data)"
    then obtain data where r: "r = Inr ()"
      and fe: "fetch (url (futures st ! j)) (remote_path (futures st ! j)) = Inr data"
      and fs': "fs' = (disk st)(target_file_of target_dir ej \<mapsto> File data)"
      by (auto simp: ej(2))
    obtain pj nj hj sj where ejt: "ej = (pj, nj, hj, sj)" by (cases ej)
    from faith ej(1) fe have hash: "content_hash_spec sha data = entry_hash ej"
      by (auto simp: faithful_def ej(2) ejt task_of_remote entry_hash_def)
    show ?thesis
    proof
      fix e assume e: "e \<in> set es"
      from ent e have p: "path_exists (disk st) (parent (target_file_of target_dir e))"
        and c: "up_to_date sha (disk st) (target_file_of target_dir e) (entry_hash e)
                \<or> pending target_dir link_root st e" by auto
      have p': "path_exists fs' (parent (target_file_of target_dir e))"
        using p by (simp add: fs' path_exists_def)
      have "up_to_date sha fs' (target_file_of target_dir e) (entry_hash e)
            \<or> pending target_dir link_root ?st' e"
      proof (cases "e = ej")
        case True
        then show ?thesis using hash by (simp add: up_to_date_iff fs')
      next
        case False
        with dist e ej(1) have ne: "target_file_of target_dir e \<noteq> target_file_of target_dir ej"
          by (auto dest: inj_onD)
        from c show ?thesis
        proof
          assume "up_to_date sha (disk st) (target_file_of target_dir e) (entry_hash e)"
          with ne show ?thesis by (simp add: up_to_date_iff fs')
        next
          assume "pending target_dir link_root st e"
          then obtain i where i: "i < length (futures st)"
            "futures st ! i = task_of target_dir link_root e"
            "outcomes st ! i \<noteq> Some (Inr ())" by (auto simp: pending_def)
          have "i \<noteq> j"
          proof
            assume "i = j"
            with i(2) ej(2) have "task_of target_dir link_root e = task_of target_dir link_root ej"
              by simp
            then have "download_path (task_of target_dir link_root e)
                       = download_path (task_of target_dir link_root ej)" by simp
            with ne show False by simp
          qed
          with i have "pending target_dir link_root ?st' e" by (auto simp: pending_def)
          then show ?thesis ..
        qed
      qed
      with p' show "path_exists fs' (parent (target_file_of target_dir e))
                \<and> (up_to_date sha fs' (target_file_of target_dir e) (entry_hash e)
                     \<or> pending target_dir link_root ?st' e)" by simp
    qed
  qed
  show ?thesis
    unfolding st' progress_def using bal' fut' ent' by simp
qed

lemma progress_run_workers:
  assumes "progress sha target_dir link_root es st"
    and "inj_on (target_file_of target_dir) (set es)"
    and "\<forall>e \<in> set es. faithful sha fetch link_root e"
  shows "progress sha target_dir link_root es (run_workers fetch js st)"
  using assms(1)
  by (induction js arbitrary: st) (simp_all add: progress_run_worker [OF _ assms(2,3)])

lemma progress_events:
  "progress sha target_dir link_root es (st\<lparr>events := evs\<rparr>)
   = progress sha target_dir link_root es st"
  by (simp add: progress_def balanced_def pending_def)

lemma ensure_parent_frame:
  assumes "ensure_parent fs p = (r, fs1)"
  shows "fs1 q = fs q \<or> (fs q = None \<and> fs1 q = Some Dir)"
proof (cases "path_exists fs (parent p)")
  case True
  with assms show ?thesis by (simp add: ensure_parent_def)
next
  case False
  with assms have "makedirs_comps fs (fst (parent p)) (rev (snd (parent p))) = (r, fs1)"
    by (simp add: ensure_parent_def makedirs_def)
  from makedirs_comps_frame [OF this, of q] show ?thesis by auto
qed

lemma makedirs_comps_made:
  "makedirs_comps fs ab cs = (None, fs') \<Longrightarrow> fs' (ab, rev cs) \<noteq> None"
proof (cases cs)
  case Nil
  assume "makedirs_comps fs ab cs = (None, fs')"
  with Nil show ?thesis by (auto split: sum.splits dest!: mkdir_other)
next
  case (Cons c cs')
  assume a: "makedirs_comps fs ab cs = (None, fs')"
  then obtain fs1 where "mkdir fs1 (ab, rev (c # cs')) = Inr fs'"
    unfolding Cons
    by (auto simp: Let_def split: if_splits prod.splits option.splits error.splits sum.splits)
  from mkdir_other [OF this] show ?thesis by (simp add: Cons)
qed

lemma ensure_parent_exists:
  assumes "ensure_parent fs p = (None, fs1)"
  shows "path_exists fs1 (parent p)"
proof (cases "path_exists fs (parent p)")
  case True
  with assms show ?thesis by (simp add: ensure_parent_def)
next
  case False
  with assms have "makedirs_comps fs (fst (parent p)) (rev (snd (parent p))) = (None, fs1)"
    by (simp add: ensure_parent_def makedirs_def)
  from makedirs_comps_made [OF this] show ?thesis by (simp add: path_exists_def)
qed

lemma progress_plan_entry:
  assumes inv: "progress sha target_dir link_root es st"
    and pe: "plan_entry sha target_dir link_root e st = (None, st')"
  shows "progress sha target_dir link_root (es @ [e]) st'"
proof -
  let ?t = "target_file_of target_dir e"
  let ?k = "task_of target_dir link_root e"
  from pe obtain fs1 where
    ep: "ensure_parent (disk st) ?t = (None, fs1)"
    and st': "st' = (if up_to_date sha fs1 ?t (fst (snd (snd e)))
            then st\<lparr>disk := fs1, events := events st @ [Plan e]\<rparr>
            else submit ?k (st\<lparr>disk := fs1, events := events st @ [Plan e]\<rparr>))"
    by (rule plan_entry_made)
  have eh: "fst (snd (snd e)) = entry_hash e" by (cases e) (simp add: entry_hash_def)
  note fr = ensure_parent_frame [OF ep]
  from inv have bal: "balanced st"
    and fut: "\<forall>t \<in> set (futures st). \<exists>x \<in> set es. t = task_of target_dir link_root x"
    and ent: "\<forall>x \<in> set es. path_exists (disk st) (parent (target_file_of target_dir x))
                \<and> (up_to_date sha (disk st) (target_file_of target_dir x) (entry_hash x)
                     \<or> pending target_dir link_root st x)"
    by (simp_all add: progress_def)
  have mono: "path_exists (disk st) q \<Longrightarrow> path_exists fs1 q" for q
    using fr [of q] by (auto simp: path_exists_def)
  have keep: "up_to_date sha (disk st) q h \<Longrightarrow> up_to_date sha fs1 q h" for q h
    using fr [of q] by (auto simp: up_to_date_iff)
  have pend: "pending target_dir link_root st x \<Longrightarrow> pending target_dir link_root st' x" for x
  proof -
    assume "pending target_dir link_root st x"
    then obtain i where i: "i < length (futures st)"
      "futures st ! i = task_of target_dir link_root x" "outcomes st ! i \<noteq> Some (Inr ())"
      by (auto simp: pending_def)
    from i(1) bal have "i < length (outcomes st)" by (simp add: balanced_def)
    with i show ?thesis
      by (auto simp: pending_def st' submit_def nth_append intro!: exI [of _ i])
  qed
  have disk': "disk st' = fs1" by (simp add: st' submit_def)
  have bal': "balanced st'" using bal by (simp add: st' submit_def balanced_def)
  have fut': "\<forall>t \<in> set (futures st'). \<exists>x \<in> set (es @ [e]). t = task_of target_dir link_root x"
    using fut by (auto simp: st' submit_def)
  have new: "up_to_date sha fs1 ?t (entry_hash e) \<or> pending target_dir link_root st' e"
  proof (cases "up_to_date sha fs1 ?t (entry_hash e)")
    case True
    then show ?thesis ..
  next
    case False
    then have "st' = submit ?k (st\<lparr>disk := fs1, events := events st @ [Plan e]\<rparr>)"
      by (simp add: st' eh)
    then have "futures st' ! length (futures st) = ?k" "outcomes st' ! length (futures st) = None"
      "length (futures st) < length (futures st')"
      using bal by (simp_all add: submit_def balanced_def nth_append)
    then have "pending target_dir link_root st' e"
      by (auto simp: pending_def intro!: exI [of _ "length (futures st)"])
    then show ?thesis ..
  qed
  have ent': "\<forall>x \<in> set (es @ [e]). path_exists (disk st') (parent (target_file_of target_dir x))
                \<and> (up_to_date sha (disk st') (target_file_of target_dir x) (entry_hash x)
                     \<or> pending target_dir link_root st' x)"
  proof
    fix x assume "x \<in> set (es @ [e])"
    then consider "x \<in> set es" | "x = e" by auto
    then show "path_exists (disk st') (parent (target_file_of target_dir x))
                \<and> (up_to_date sha (disk st') (target_file_of target_dir x) (entry_hash x)
                     \<or> pending target_dir link_root st' x)"
    proof cases
      case 1
      with ent mono keep pend show ?thesis unfolding disk' by blast
    next
      case 2
      with new ensure_parent_exists [OF ep] show ?thesis unfolding disk' by simp
    qed
  qed
  show ?thesis unfolding progress_def using bal' fut' ent' by simp
qed

lemma progress_plan_loop:
  assumes "progress sha target_dir link_root ds st"
    and "inj_on (target_file_of target_dir) (set (ds @ es))"
    and "\<forall>e \<in> set (ds @ es). faithful sha fetch link_root e"
    and "plan_loop sha fetch sch target_dir link_root i es st = (None, st')"
  shows "progress sha target_dir link_root (ds @ es) st'"
  using assms
proof (induction es arbitrary: ds i st)
  case Nil
  then show ?case by simp
next
  case (Cons e es)
  have inj: "inj_on (target_file_of target_dir) (set ds)"
    using Cons.prems(2) by (auto intro: inj_on_subset)
  have fa: "\<forall>e \<in> set ds. faithful sha fetch link_root e" using Cons.prems(3) by simp
  note p0 = progress_run_workers [OF Cons.prems(1) inj fa, of "sch i"]
  obtain r1 st1 where pe: "plan_entry sha target_dir link_root e (run_workers fetch (sch i) st) = (r1, st1)"
    by (cases "plan_entry sha target_dir link_root e (run_workers fetch (sch i) st)")
  with Cons.prems(4) have r1: "r1 = None"
    and rest: "plan_loop sha fetch sch target_dir link_root (Suc i) es st1 = (None, st')"
    by (cases r1; simp)+
  from progress_plan_entry [OF p0 pe [unfolded r1]]
  have p1: "progress sha target_dir link_root (ds @ [e]) st1" .
  from Cons.IH [OF p1 _ _ rest] Cons.prems(2,3) show ?case by simp
qed

lemma progress_collect:
  assumes "progress sha target_dir link_root es st"
    and "inj_on (target_file_of target_dir) (set es)"
    and "\<forall>e \<in> set es. faithful sha fetch link_root e"
    and "collect fetch sch i js st = (r, st')"
  shows "progress sha target_dir link_root es st'"
  using assms(1,4)
proof (induction js arbitrary: i st)
  case Nil
  then show ?case by simp
next
  case (Cons j js)
  let ?st1 = "run_worker fetch j (run_workers fetch (sch i) st)"
  let ?st2 = "?st1\<lparr>events := events ?st1 @ [Join j]\<rparr>"
  have p2: "progress sha target_dir link_root es ?st2"
    using progress_run_worker [OF progress_run_workers [OF Cons.prems(1) assms(2,3)] assms(2,3)]
    by (simp add: progress_events)
  from Cons.prems(2) have "st' = ?st2 \<or> collect fetch sch (Suc i) js ?st2 = (r, st')"
    by (auto simp: Let_def split: option.splits sum.splits)
  then show ?case
  proof
    assume "st' = ?st2"
    with p2 show ?thesis by simp
  next
    assume "collect fetch sch (Suc i) js ?st2 = (r, st')"
    from Cons.IH [OF p2 this] show ?thesis .
  qed
qed

lemma successful_run:
  assumes pos: "0 < n_parallel"
    and inj: "inj_on (target_file_of target_dir) (set files_to_download)"
    and fa: "\<forall>e \<in> set files_to_download. faithful sha fetch link_root e"
    and run: "download_file_list sha fetch sch order files_to_download target_dir link_root
                n_parallel fs = (Inr (), st)"
  shows "progress sha target_dir link_root files_to_download st
         \<and> (\<forall>j < length (futures st). outcomes st ! j = Some (Inr ()))"
proof -
  let ?st0 = "\<lparr>disk = fs, futures = [], outcomes = [], events = [PrintChecking]\<rparr>"
  obtain r1 st1 where pl: "plan_loop sha fetch sch target_dir link_root 0 files_to_download ?st0 = (r1, st1)"
    by (cases "plan_loop sha fetch sch target_dir link_root 0 files_to_download ?st0")
  have r1: "r1 = None" using run pos pl by (cases r1) (simp_all add: download_file_list_def)
  have p0: "progress sha target_dir link_root [] ?st0"
    by (simp add: progress_def balanced_def)
  from progress_plan_loop [OF p0 _ _ pl [unfolded r1]] inj fa
  have p1: "progress sha target_dir link_root files_to_download st1" by simp
  let ?n = "length (futures st1)"
  let ?st1' = "st1\<lparr>events := events st1 @ [PrintDownloading ?n]\<rparr>"
  obtain r2 st2 where co: "collect fetch sch (length files_to_download) [0..<?n] ?st1' = (r2, st2)"
    by (cases "collect fetch sch (length files_to_download) [0..<?n] ?st1'")
  have r2: "r2 = None" and st: "st = shutdown fetch order st2"
    using run pos pl r1 co by (cases r2; simp add: download_file_list_def)+
  have p1': "progress sha target_dir link_root files_to_download ?st1'"
    using p1 by (simp add: progress_events)
  from progress_collect [OF p1' inj fa co]
  have p2: "progress sha target_dir link_root files_to_download st2" .
  have p: "progress sha target_dir link_root files_to_download st"
    unfolding st shutdown_def by (rule progress_run_workers [OF p2 inj fa])
  have b1': "balanced ?st1'" "?n = length (futures ?st1')"
    using p1 by (simp_all add: progress_def balanced_def)
  from collect_outcomes [OF b1' _ _ co] r2
  have c: "balanced st2" "futures st2 = futures st1"
    "\<forall>i < ?n. outcomes st2 ! i = Some (Inr ())" by simp_all
  note sh = shutdown_outcomes [OF c(1), where fetch = fetch and order = order]
  have "\<forall>j < length (futures st). outcomes st ! j = Some (Inr ())"
    using c(2,3) sh(2) by (simp add: st shutdown_keeps)
  with p show ?thesis by simp
qed

lemma run_workers_idle: "futures st = [] \<Longrightarrow> run_workers fetch js st = st"
  by (induction js) (simp_all add: run_worker_def)

lemma plan_entry_skip:
  assumes "path_exists (disk st) (parent (target_file_of target_dir e))"
    and "up_to_date sha (disk st) (target_file_of target_dir e) (entry_hash e)"
  shows "plan_entry sha target_dir link_root e st = (None, st\<lparr>events := events st @ [Plan e]\<rparr>)"
proof -
  obtain path name content_hash sz where e: "e = (path, name, content_hash, sz)" by (cases e)
  from assms show ?thesis
    by (simp add: plan_entry_def e ensure_parent_def up_to_date_def entry_hash_def Let_def)
qed

lemma plan_loop_skip:
  assumes "\<forall>e \<in> set es. path_exists (disk st) (parent (target_file_of target_dir e))
                         \<and> up_to_date sha (disk st) (target_file_of target_dir e) (entry_hash e)"
    and "futures st = []"
  shows "plan_loop sha fetch sch target_dir link_root i es st
         = (None, st\<lparr>events := events st @ map Plan es\<rparr>)"
  using assms
proof (induction es arbitrary: i st)
  case Nil
  then show ?case by simp
next
  case (Cons e es)
  let ?st1 = "st\<lparr>events := events st @ [Plan e]\<rparr>"
  have pe: "plan_entry sha target_dir link_root e st = (None, ?st1)"
    using Cons.prems(1) by (intro plan_entry_skip) simp_all
  have "plan_loop sha fetch sch target_dir link_root (Suc i) es ?st1
        = (None, ?st1\<lparr>events := events ?st1 @ map Plan es\<rparr>)"
    using Cons.prems by (intro Cons.IH) simp_all
  then show ?case
    by (simp add: run_workers_idle [OF Cons.prems(2)] pe)
qed

text \<open>
  C4. Take a list whose entries have different target paths, and a first run of the
  scheduler that ends without an exception and whose transfers deliver, for every entry,
  content with the entry's hash. Then a second run on the same list and target
  directory, under any schedule, submits no task and makes no transfer: every entry is
  skipped by the hash comparison, and the file system stays as the first run left it.
\<close>

theorem second_run_transfers_nothing:
  assumes "0 < n_parallel"
    and "distinct (map (target_file_of target_dir) files_to_download)"
    and "\<forall>e \<in> set files_to_download. faithful sha fetch link_root e"
    and "download_file_list sha fetch sch order files_to_download target_dir link_root n_parallel fs
         = (Inr (), st)"
  shows "download_file_list sha fetch sch2 order2 files_to_download target_dir link_root n_parallel
           (disk st)
         = (Inr (), \<lparr>disk = disk st, futures = [], outcomes = [],
                     events = PrintChecking # map Plan files_to_download @ [PrintDownloading 0]\<rparr>)"
proof -
  have inj: "inj_on (target_file_of target_dir) (set files_to_download)"
    using assms(2) by (simp add: distinct_map)
  from successful_run [OF assms(1) inj assms(3,4)]
  have p: "progress sha target_dir link_root files_to_download st"
    and ok: "\<forall>j < length (futures st). outcomes st ! j = Some (Inr ())" by simp_all
  have settled: "\<forall>e \<in> set files_to_download.
      path_exists (disk st) (parent (target_file_of target_dir e))
      \<and> up_to_date sha (disk st) (target_file_of target_dir e) (entry_hash e)"
  proof
    fix e assume e: "e \<in> set files_to_download"
    have "\<not> pending target_dir link_root st e" using ok by (auto simp: pending_def)
    with p e show "path_exists (disk st) (parent (target_file_of target_dir e))
      \<and> up_to_date sha (disk st) (target_file_of target_dir e) (entry_hash e)"
      by (auto simp: progress_def)
  qed
  let ?st0 = "\<lparr>disk = disk st, futures = [], outcomes = [], events = [PrintChecking]\<rparr>"
  have "plan_loop sha fetch sch2 target_dir link_root 0 files_to_download ?st0
        = (None, ?st0\<lparr>events := events ?st0 @ map Plan files_to_download\<rparr>)"
    using settled by (intro plan_loop_skip) simp_all
  then show ?thesis
    using assms(1) by (simp add: download_file_list_def shutdown_def run_workers_idle)
qed

lemma repeat_targets:
  "target_file_of ''out'' (''/sub'', ''c.txt'', ''01'', 20) = (False, [''out'', ''sub'', ''c.txt''])"
  by (simp add: target_file_of_def Path_def path_join_def strip_slash_def)

lemma repeat_tasks:
  "task_of ''out'' ''link'' (''/sub'', ''c.txt'', ''01'', 20) = repeat_task"
  by (simp add: task_of_def repeat_targets repeat_task_def join_slash_def)

lemma scenario_hash:
  "db_content_hash example_sha scenario_disk (False, [''out'', ''a.txt'']) = Inr ''01''"
  by (simp add: scenario_disk_def db_content_hash_def read_file_def hash_chunks.simps
        CHUNK_SIZE_def example_sha_def hexdigest_def hex_byte_def hex_digit_def hex_alphabet_def
        Let_def)

lemma scenario_disk_lookup:
  "scenario_disk (False, [''out'']) = Some Dir"
  "scenario_disk (False, [''out'', ''a.txt'']) = Some (File [1, 2, 3])"
  "scenario_disk (False, [''out'', ''sub'']) = None"
  "scenario_disk (False, [''out'', ''sub'', ''c.txt'']) = None"
  by (simp_all add: scenario_disk_def)

lemma repeat_plan:
  "plan_loop example_sha example_fetch lazy_schedule ''out'' ''link'' 0 repeat_manifest
     \<lparr>disk = scenario_disk, futures = [], outcomes = [], events = [PrintChecking]\<rparr>
   = (None,
      \<lparr>disk = scenario_disk((False, [''out'', ''sub'']) \<mapsto> Dir),
       futures = [repeat_task], outcomes = [None],
       events = [PrintChecking, Plan ([], ''a.txt'', ''01'', 10),
                 Plan (''/sub'', ''c.txt'', ''01'', 20), Submit repeat_task]\<rparr>)"
  by (simp add: repeat_manifest_def plan_entry_def scenario_targets repeat_targets repeat_tasks
        ensure_parent_def parent_def path_exists_def scenario_disk_lookup scenario_hash
        makedirs_def mkdir_def submit_def lazy_schedule_def Let_def)

lemma repeat_run:
  "download_file_list example_sha example_fetch lazy_schedule [] repeat_manifest ''out'' ''link'' 1
     scenario_disk
   = (Inr (),
      \<lparr>disk = scenario_disk((False, [''out'', ''sub'']) \<mapsto> Dir,
                             (False, [''out'', ''sub'', ''c.txt'']) \<mapsto> File [7]),
       futures = [repeat_task], outcomes = [Some (Inr ())],
       events = [PrintChecking, Plan ([], ''a.txt'', ''01'', 10),
                 Plan (''/sub'', ''c.txt'', ''01'', 20), Submit repeat_task,
                 PrintDownloading 1, Run 0, Join 0]\<rparr>)"
  by (simp add: download_file_list_def repeat_plan lazy_schedule_def run_worker_def
        sharing_get_shared_link_file_to_file_def example_fetch_def write_file_def
        repeat_task_def shutdown_def Let_def upt_rec parent_def scenario_disk_lookup)

theorem second_run_transfers_nothing_witness:
  "(0::int) < 1
   \<and> distinct (map (target_file_of ''out'') repeat_manifest)
   \<and> faithful example_sha example_fetch ''link'' ([], ''a.txt'', ''01'', 10)
   \<and> faithful example_sha example_fetch ''link'' (''/sub'', ''c.txt'', ''01'', 20)
   \<and> download_file_list example_sha example_fetch lazy_schedule [] repeat_manifest ''out'' ''link'' 1
       scenario_disk
     = (Inr (),
        \<lparr>disk = scenario_disk((False, [''out'', ''sub'']) \<mapsto> Dir,
                               (False, [''out'', ''sub'', ''c.txt'']) \<mapsto> File [7]),
         futures = [repeat_task], outcomes = [Some (Inr ())],
         events = [PrintChecking, Plan ([], ''a.txt'', ''01'', 10),
                   Plan (''/sub'', ''c.txt'', ''01'', 20), Submit repeat_task,
                   PrintDownloading 1, Run 0, Join 0]\<rparr>)
   \<and> download_file_list example_sha example_fetch eager_schedule [0] repeat_manifest ''out'' ''link'' 1
       (scenario_disk((False, [''out'', ''sub'']) \<mapsto> Dir,
                      (False, [''out'', ''sub'', ''c.txt'']) \<mapsto> File [7]))
     = (Inr (),
        \<lparr>disk = scenario_disk((False, [''out'', ''sub'']) \<mapsto> Dir,
                               (False, [''out'', ''sub'', ''c.txt'']) \<mapsto> File [7]),
         futures = [], outcomes = [],
         events = [PrintChecking, Plan ([], ''a.txt'', ''01'', 10),
                   Plan (''/sub'', ''c.txt'', ''01'', 20), PrintDownloading 0]\<rparr>)"
proof -
  have pos: "(0::int) < 1" by simp
  have d: "distinct (map (target_file_of ''out'') repeat_manifest)"
    by (simp add: repeat_manifest_def scenario_targets repeat_targets)
  have f: "\<forall>e \<in> set repeat_manifest. faithful example_sha example_fetch ''link'' e"
    by (simp add: repeat_manifest_def faithful_def example_fetch_def join_slash_def
          content_hash_spec_def chunks_of.simps CHUNK_SIZE_def example_sha_def hexdigest_def
          hex_byte_def hex_digit_def hex_alphabet_def)
  from second_run_transfers_nothing [OF pos d f repeat_run, of eager_schedule "[0]"]
    pos d f repeat_run
  show ?thesis by (simp add: repeat_manifest_def)
qed

section \<open>The tasks the scheduler submits\<close>











end
